theory Spec2Isabelle
  imports Main "HOL-Library.Char_ord" "HOL-Library.List_Lexorder" "HOL-Library.Product_Lexorder"
    "HOL-Library.Multiset"
begin

section \<open>Python strings\<close>

text \<open>
  Python's \<open>str\<close> is modelled as \<open>string\<close>. Comparison of strings is Python's:
  lexicographic on the character codes, a proper prefix being smaller
  (\<open>List_Lexorder\<close> over \<open>Char_ord\<close>). A character is one byte here, so
  \<open>length\<close> agrees with Python's \<open>len\<close> on ASCII text, which is what identifiers of the
  processed stub files are made of.
\<close>

text \<open>\<open>sep.join(parts)\<close>\<close>

fun join :: "string \<Rightarrow> string list \<Rightarrow> string" where
  "join sep [] = []"
| "join sep [x] = x"
| "join sep (x # y # ys) = x @ sep @ join sep (y # ys)"

text \<open>\<open>s.split(c)\<close> for a separator of one character: never an empty list.\<close>

function split_on :: "char \<Rightarrow> string \<Rightarrow> string list" where
  "split_on c s =
     (case dropWhile (\<lambda>x. x \<noteq> c) s of
        [] \<Rightarrow> [s]
      | _ # rest \<Rightarrow> takeWhile (\<lambda>x. x \<noteq> c) s # split_on c rest)"
  by pat_completeness auto
termination
proof (relation "measure (\<lambda>(c, s). length s)")
  show "wf (measure (\<lambda>(c, s). length s))" by simp
next
  fix c :: char and s :: string and x21 rest
  assume "dropWhile (\<lambda>x. x \<noteq> c) s = x21 # rest"
  then have "length (x21 # rest) \<le> length s"
    using length_dropWhile_le [of "\<lambda>x. x \<noteq> c" s] by simp
  then show "((c, rest), (c, s)) \<in> measure (\<lambda>(c, s). length s)" by simp
qed

declare split_on.simps [simp del]

text \<open>\<open>s.split(".", 1)[0]\<close>: the text before the first dot, all of \<open>s\<close> when it has none.\<close>

definition first_segment :: "string \<Rightarrow> string" where
  "first_segment s = takeWhile (\<lambda>x. x \<noteq> CHR ''.'') s"

text \<open>\<open>s.startswith(p)\<close> and \<open>s[len(p):]\<close>\<close>

definition startswith :: "string \<Rightarrow> string \<Rightarrow> bool" where
  "startswith s p = (take (length p) s = p)"

definition strip_prefix :: "string \<Rightarrow> string \<Rightarrow> string" where
  "strip_prefix p s = drop (length p) s"

text \<open>\<open>s.replace(old, new, 1)\<close>: the first occurrence of \<open>old\<close> in \<open>s\<close>, if any, is replaced;
  the empty \<open>old\<close> occurs at the start.\<close>

fun replace_first :: "string \<Rightarrow> string \<Rightarrow> string \<Rightarrow> string" where
  "replace_first old new [] = (if old = [] then new else [])"
| "replace_first old new (c # cs) =
     (if startswith (c # cs) old then new @ drop (length old) (c # cs)
      else c # replace_first old new cs)"

text \<open>The backslash, which a string literal cannot hold.\<close>

definition bsl :: char where
  "bsl = CHR 0x5C"

section \<open>The substitution compiler\<close>

type_synonym substitution = "string \<times> string"

definition PREFFERED_QT_MODULES :: "string list" where
  "PREFFERED_QT_MODULES = [''QtCore'', ''QtGui'', ''QtWidgets'']"

text \<open>\<open>_sort_key\<close>: the tuple Python compares, component by component.\<close>

definition sort_key_of :: "substitution \<Rightarrow> int \<times> string \<times> bool \<times> string" where
  "sort_key_of p =
     (case p of (member, qual_name) \<Rightarrow>
        (- int (length member),
         member,
         first_segment qual_name \<in> set PREFFERED_QT_MODULES,
         qual_name))"

text \<open>The two lines appended for one pair. \<open>qual_parts[:-2]\<close> drops the last two parts
  (all of them when there are at most two) and \<open>qual_parts[-1]\<close> is the last part of a
  list that \<open>split\<close> never returns empty.\<close>

definition generic_rule :: "string \<Rightarrow> string \<Rightarrow> string" where
  "generic_rule member qual_name =
     ''s/([^a-zA-Z0-9_.]|^)[a-zA-PR-Z0-9_.]([a-su-z0-9_.][a-zA-Z0-9_.]*)?'' @ [bsl] @ ''.''
       @ member @ ''([^a-zA-Z0-9_.]|$)/'' @ [bsl] @ ''1'' @ qual_name @ [bsl] @ ''3/g''"

definition old_path :: "string \<Rightarrow> string" where
  "old_path qual_name =
     (let qual_parts = split_on (CHR ''.'') qual_name
      in join ''.'' (butlast (butlast qual_parts)) @ ''.'' @ last qual_parts)"

definition legacy_rule :: "string \<Rightarrow> string" where
  "legacy_rule qual_name =
     ''s/([^a-zA-Z0-9_.]|^)[a-zA-Z0-9_.]+'' @ [bsl] @ ''.'' @ old_path qual_name
       @ ''([^a-zA-Z0-9_.]|$)/'' @ [bsl] @ ''1'' @ qual_name @ [bsl] @ ''2/g''"

text \<open>\<open>member_qual_names[member].append(qual_name)\<close> on a \<open>defaultdict(list)\<close>: a dictionary
  keeps its keys in the order of their first insertion, so it is an association list.\<close>

fun dict_append :: "(string \<times> string list) list \<Rightarrow> string \<Rightarrow> string \<Rightarrow> (string \<times> string list) list" where
  "dict_append [] k v = [(k, [v])]"
| "dict_append ((k', vs) # d) k v =
     (if k' = k then (k', vs @ [v]) # d else (k', vs) # dict_append d k v)"

text \<open>The first loop of \<open>_to_sed_script\<close>, over the sorted pairs, with its two accumulators.\<close>

fun script_loop :: "substitution list \<Rightarrow> string list \<times> (string \<times> string list) list
    \<Rightarrow> string list \<times> (string \<times> string list) list" where
  "script_loop [] acc = acc"
| "script_loop ((member, qual_name) # rest) (result, member_qual_names) =
     script_loop rest
       (result @ [generic_rule member qual_name, legacy_rule qual_name],
        dict_append member_qual_names member qual_name)"

definition warning_line :: "string \<times> string list \<Rightarrow> string" where
  "warning_line g =
     (case g of (member, qual_names) \<Rightarrow>
        ''* Will substitute `'' @ member @ ''` to `'' @ last qual_names
          @ ''`, but could be any of `'' @ join ''`, `'' qual_names @ ''`'')"

text \<open>The members the second loop warns about, in the order it visits them.\<close>

definition warned :: "(string \<times> string list) list \<Rightarrow> (string \<times> string list) list" where
  "warned member_qual_names = filter (\<lambda>g. length (snd g) > 1) member_qual_names"

text \<open>\<open>sorted(substitutions, key=_sort_key)\<close> is a stable sort by the key, as \<open>sort_key\<close> is.\<close>

definition sorted_substitutions :: "substitution list \<Rightarrow> substitution list" where
  "sorted_substitutions substitutions = sort_key sort_key_of substitutions"

definition member_qual_names_of :: "substitution list \<Rightarrow> (string \<times> string list) list" where
  "member_qual_names_of substitutions =
     snd (script_loop (sorted_substitutions substitutions) ([], []))"

text \<open>\<open>_to_sed_script\<close>: the returned list and the lines written to the standard error.\<close>

definition to_sed_script :: "substitution list \<Rightarrow> string list \<times> string list" where
  "to_sed_script substitutions =
     (case script_loop (sorted_substitutions substitutions) ([], []) of
        (result, member_qual_names) \<Rightarrow>
          (result, map warning_line (warned member_qual_names)))"

text \<open>The qualified names recorded for one member, in the order of the pairs.\<close>

definition quals_of :: "string \<Rightarrow> substitution list \<Rightarrow> string list" where
  "quals_of member xs = map snd (filter (\<lambda>p. fst p = member) xs)"

section \<open>The name resolver\<close>

text \<open>
  The resolver reads the syntax tree through the astroid library. What the library
  computes is an input of the model: a node carries the values the code reads from it
  (\<open>as_string()\<close>, \<open>qname()\<close>, the result of a scope lookup), and the functions below
  are the code of the repository on top of them.
\<close>

text \<open>A \<open>from X import Y as Z\<close> statement: \<open>modname\<close>, \<open>level\<close> (\<open>None\<close> or a number),
  \<open>names\<close> (the pairs of a name and its alias or \<open>None\<close>), and the value that
  \<open>root().relative_to_absolute_name(modname, level=level)\<close> returns for it.\<close>

record import_from =
  modname :: string
  level :: "nat option"
  names :: "(string \<times> string option) list"
  relative_to_absolute_name :: string

text \<open>A binding site returned by a scope lookup, by the classes \<open>resolve_qualname\<close> tells
  apart: an \<open>ImportFrom\<close>, an \<open>Import\<close> with its \<open>names\<close>, a \<open>ClassDef\<close> with its
  \<open>qname()\<close>, an \<open>AssignName\<close> with its \<open>scope().qname()\<close> and its \<open>name\<close>, and any
  other node.\<close>

datatype binding =
    ImportFrom import_from
  | Import "(string \<times> string option) list"
  | ClassDefSite string
  | AssignName string string
  | OtherSite

fun resolve_import_alias :: "string \<Rightarrow> (string \<times> string option) list \<Rightarrow> string" where
  "resolve_import_alias name [] = name"
| "resolve_import_alias name ((import_name, imported_as) # rest) =
     (if import_name = name then name
      else if imported_as = Some name then import_name
      else resolve_import_alias name rest)"

text \<open>\<open>if import_from.level:\<close> holds for a number other than zero.\<close>

definition truthy_level :: "nat option \<Rightarrow> bool" where
  "truthy_level l = (case l of None \<Rightarrow> False | Some n \<Rightarrow> n \<noteq> 0)"

definition get_full_import_name :: "import_from \<Rightarrow> string \<Rightarrow> string" where
  "get_full_import_name imp name =
     (let partial_basename = resolve_import_alias name (names imp);
          module_name = (if truthy_level (level imp) then relative_to_absolute_name imp
                         else modname imp)
      in module_name @ ''.'' @ partial_basename)"

text \<open>
  \<open>re.sub(r"\(.*\)", repl, s)\<close>: the leftmost opening parenthesis that has a closing one
  later on its line starts a match, which runs to the last closing parenthesis of that
  line (the star is greedy and the dot matches every character but the newline); the
  match is replaced and the search goes on behind it.
\<close>

definition last_close :: "string \<Rightarrow> nat" where
  "last_close line = length line - length (takeWhile (\<lambda>x. x \<noteq> CHR '')'') (rev line))"

fun re_sub_parens :: "string \<Rightarrow> string \<Rightarrow> string" where
  "re_sub_parens repl [] = []"
| "re_sub_parens repl (c # cs) =
     (let line = takeWhile (\<lambda>x. x \<noteq> CHR 0x0A) cs in
      if c = CHR ''('' \<and> CHR '')'' \<in> set line
      then repl @ re_sub_parens repl (drop (last_close line) cs)
      else c # re_sub_parens repl cs)"

text \<open>The node handed to \<open>resolve_qualname\<close>: whether it is a \<open>Call\<close>, its own lookup when
  it is a \<open>LocalsDictNodeNG\<close>, and the lookup of its \<open>scope()\<close>. A lookup maps a name to
  the binding sites \<open>lookup(name)[1]\<close>.\<close>

record node =
  is_call :: bool
  locals_lookup :: "(string \<Rightarrow> binding list) option"
  scope_lookup :: "string \<Rightarrow> binding list"

text \<open>The loop over \<open>assigns\<close>: an import or a class definition sets the result and
  breaks, an \<open>AssignName\<close> sets it and goes on, any other node is passed over.\<close>

fun resolve_loop :: "string \<Rightarrow> string \<Rightarrow> string \<Rightarrow> binding list \<Rightarrow> string" where
  "resolve_loop basename top_level_name full_basename [] = full_basename"
| "resolve_loop basename top_level_name full_basename (ImportFrom imp # rest) =
     replace_first top_level_name (get_full_import_name imp top_level_name) basename"
| "resolve_loop basename top_level_name full_basename (Import import_names # rest) =
     replace_first top_level_name (resolve_import_alias top_level_name import_names) basename"
| "resolve_loop basename top_level_name full_basename (ClassDefSite qname # rest) = qname"
| "resolve_loop basename top_level_name full_basename (AssignName scope_qname name # rest) =
     resolve_loop basename top_level_name (scope_qname @ ''.'' @ name) rest"
| "resolve_loop basename top_level_name full_basename (OtherSite # rest) =
     resolve_loop basename top_level_name full_basename rest"

text \<open>What follows the loop: the arguments of a call are collapsed, and a leading
  \<open>builtins.\<close> or \<open>__builtin__.\<close> is cut off.\<close>

definition finish_qualname :: "node \<Rightarrow> string \<Rightarrow> string" where
  "finish_qualname n full_basename =
     (let full_basename = (if is_call n then re_sub_parens ''()'' full_basename
                           else full_basename)
      in if startswith full_basename ''builtins.''
         then drop (length ''builtins.'') full_basename
         else if startswith full_basename ''__builtin__.''
         then drop (length ''__builtin__.'') full_basename
         else full_basename)"

definition top_level_name_of :: "string \<Rightarrow> string" where
  "top_level_name_of basename = first_segment (re_sub_parens [] basename)"

definition assigns_of :: "node \<Rightarrow> string \<Rightarrow> binding list" where
  "assigns_of n top_level_name =
     (case locals_lookup n of
        Some lookup \<Rightarrow> lookup top_level_name
      | None \<Rightarrow> scope_lookup n top_level_name)"

definition resolve_qualname :: "node \<Rightarrow> string \<Rightarrow> string" where
  "resolve_qualname n basename =
     (let top_level_name = top_level_name_of basename;
          assigns = assigns_of n top_level_name
      in finish_qualname n (resolve_loop basename top_level_name basename assigns))"

text \<open>
  The expressions \<open>_resolve_annotation\<close> tells apart. A \<open>Const\<close> carries \<open>str(value)\<close> and
  \<open>as_string()\<close>, a \<open>Name\<close> its \<open>name\<close>, an \<open>Attribute\<close> its \<open>as_string()\<close>; each of the
  three carries the lookup of its scope. A \<open>Subscript\<close> has its \<open>value\<close> and its \<open>slice\<close>,
  an \<open>Index\<close> (astroid before version 3) its \<open>value\<close>, a \<open>BinOp\<close> its \<open>op\<close>, \<open>left\<close> and
  \<open>right\<close>. The nodes that can reach the last branch carry their \<open>as_string()\<close>.
\<close>

datatype expr =
    Const string string "string \<Rightarrow> binding list"
  | Name string "string \<Rightarrow> binding list"
  | Attribute string "string \<Rightarrow> binding list"
  | Subscript expr expr
  | Index expr string
  | Tuple "expr list"
  | ListExpr "expr list"
  | BinOp string expr expr string
  | OtherExpr string

text \<open>A \<open>Const\<close>, a \<open>Name\<close> and an \<open>Attribute\<close> are neither calls nor scopes.\<close>

definition expr_node :: "(string \<Rightarrow> binding list) \<Rightarrow> node" where
  "expr_node lookup = \<lparr>is_call = False, locals_lookup = None, scope_lookup = lookup\<rparr>"

fun unwrap_index :: "expr \<Rightarrow> expr" where
  "unwrap_index (Index v s) = v"
| "unwrap_index e = e"

fun slice_elts :: "expr \<Rightarrow> expr list" where
  "slice_elts (Tuple elts) = elts"
| "slice_elts e = [e]"

fun is_tuple :: "expr \<Rightarrow> bool" where
  "is_tuple (Tuple elts) = True"
| "is_tuple e = False"

text \<open>The end of \<open>_resolve_annotation\<close>: a leading \<open>typing.\<close> is cut off, else a leading
  name of the module of the node with its dot.\<close>

definition finish_annotation :: "string \<Rightarrow> string \<Rightarrow> string" where
  "finish_annotation root_name resolved =
     (if startswith resolved ''typing.'' then drop (length ''typing.'') resolved
      else if startswith resolved (root_name @ ''.'')
      then drop (length (root_name @ ''.'')) resolved
      else resolved)"

lemma size_unwrap_index: "size (unwrap_index e) \<le> size e"
  by (cases e) simp_all

lemma size_slice_elts: "x \<in> set (slice_elts e) \<Longrightarrow> size x \<le> size e"
proof (cases e)
  case (Tuple elts)
  assume "x \<in> set (slice_elts e)"
  with Tuple have "x \<in> set elts" by simp
  then have "size x \<le> size_list size elts" by (simp add: size_list_estimation')
  with Tuple show ?thesis by simp
qed simp_all

lemma slice_member_size: "x \<in> set (slice_elts (unwrap_index sl)) \<Longrightarrow> size x \<le> size sl"
  using size_slice_elts [of x "unwrap_index sl"] size_unwrap_index [of sl] by simp

lemma unwrap_index_size_le: "size (unwrap_index sl) \<le> n + size sl"
  using size_unwrap_index [of sl] by simp

function resolve_annotation :: "string \<Rightarrow> expr \<Rightarrow> string" where
  "resolve_annotation root_name (Const v s lookup) =
     finish_annotation root_name (resolve_qualname (expr_node lookup) v)"
| "resolve_annotation root_name (Name name lookup) =
     finish_annotation root_name (resolve_qualname (expr_node lookup) name)"
| "resolve_annotation root_name (Attribute s lookup) =
     finish_annotation root_name (resolve_qualname (expr_node lookup) s)"
| "resolve_annotation root_name (Subscript v sl) =
     (let val = resolve_annotation root_name v;
          slice_node = unwrap_index sl;
          slice_text =
            (if val = ''Literal''
             then join '', ''
                    (map (\<lambda>elt. case elt of Const cv cs cl \<Rightarrow> cs
                                 | _ \<Rightarrow> resolve_annotation root_name elt)
                       (slice_elts slice_node))
             else if is_tuple slice_node
             then join '', '' (map (resolve_annotation root_name) (slice_elts slice_node))
             else resolve_annotation root_name slice_node)
      in finish_annotation root_name (val @ ''['' @ slice_text @ '']''))"
| "resolve_annotation root_name (Tuple elts) =
     finish_annotation root_name
       (''('' @ join '', '' (map (resolve_annotation root_name) elts) @ '')'')"
| "resolve_annotation root_name (ListExpr elts) =
     finish_annotation root_name
       (''['' @ join '', '' (map (resolve_annotation root_name) elts) @ '']'')"
| "resolve_annotation root_name (BinOp op left right s) =
     (if op = ''|''
      then finish_annotation root_name
             (resolve_annotation root_name left @ '' | '' @ resolve_annotation root_name right)
      else finish_annotation root_name s)"
| "resolve_annotation root_name (Index v s) = finish_annotation root_name s"
| "resolve_annotation root_name (OtherExpr s) = finish_annotation root_name s"
  by pat_completeness auto
termination
  apply (relation "measure (\<lambda>(r, e). size e)")
  apply (simp_all add: unwrap_index_size_le size_list_estimation' less_Suc_eq_le)
  apply (auto dest!: slice_member_size)
  done

text \<open>\<open>get_full_basenames\<close>: the bases of a class, each resolved.\<close>

definition get_full_basenames :: "string \<Rightarrow> expr list \<Rightarrow> string list" where
  "get_full_basenames root_name bases = map (resolve_annotation root_name) bases"

section \<open>The enum extractor\<close>

text \<open>The target of an annotated assignment: an \<open>AssignName\<close> with its \<open>name\<close>, an
  \<open>AssignAttr\<close> with its \<open>attrname\<close>, or another node (a subscript).\<close>

datatype target = AssignNameTarget string | AssignAttrTarget string | OtherTarget

text \<open>A class definition has its \<open>name\<close>, its \<open>bases\<close> and its \<open>body\<close>; of the statements
  of a body the extractor tells apart class definitions and annotated assignments.\<close>

datatype classdef = ClassDef string "expr list" "stmt list"
  and stmt = ClassStmt classdef | AnnAssign target | OtherStmt

text \<open>A module has its \<open>name\<close> (dotted) and its statements, which are its children.\<close>

datatype module = Module string "stmt list"

datatype py_error = IndexError | TypeError | ValueError

text \<open>\<open>_get_assign_target_node\<close> on an annotated assignment: the node has no \<open>targets\<close>, so
  the list is \<open>[node.target]\<close>, of length one.\<close>

fun get_assign_target_node :: "target \<Rightarrow> target option" where
  "get_assign_target_node (AssignNameTarget name) = Some (AssignNameTarget name)"
| "get_assign_target_node (AssignAttrTarget attrname) = Some (AssignAttrTarget attrname)"
| "get_assign_target_node OtherTarget = None"

fun get_assign_target_name :: "target \<Rightarrow> string option" where
  "get_assign_target_name t =
     (case get_assign_target_node t of
        Some (AssignNameTarget name) \<Rightarrow> Some name
      | Some (AssignAttrTarget attrname) \<Rightarrow> Some attrname
      | _ \<Rightarrow> None)"

text \<open>\<open>Parser._get_qual_name\<close>\<close>

definition get_qual_name :: "string list \<Rightarrow> string \<Rightarrow> string" where
  "get_qual_name qual_name_stack name = join ''.'' (qual_name_stack @ [name])"

text \<open>\<open>Parser._parse_enum_member\<close>; \<open>not target\<close> holds for \<open>None\<close> and for the empty
  string.\<close>

fun is_assign_attr :: "target \<Rightarrow> bool" where
  "is_assign_attr (AssignAttrTarget attrname) = True"
| "is_assign_attr t = False"

definition parse_enum_member :: "string list \<Rightarrow> target \<Rightarrow> substitution list" where
  "parse_enum_member qual_name_stack t =
     (if is_assign_attr t then []
      else case get_assign_target_name t of
             None \<Rightarrow> []
           | Some name \<Rightarrow>
               if name = [] then [] else [(name, get_qual_name qual_name_stack name)])"

text \<open>The loop over the body of an enum class: it reads the stack and leaves it alone.\<close>

fun parse_enum_body :: "string list \<Rightarrow> stmt list \<Rightarrow> substitution list" where
  "parse_enum_body qual_name_stack [] = []"
| "parse_enum_body qual_name_stack (AnnAssign t # rest) =
     parse_enum_member qual_name_stack t @ parse_enum_body qual_name_stack rest"
| "parse_enum_body qual_name_stack (child # rest) = parse_enum_body qual_name_stack rest"

definition is_enum :: "string \<Rightarrow> expr list \<Rightarrow> bool" where
  "is_enum root_name bases =
     list_ex (\<lambda>base. first_segment base = ''enum'') (get_full_basenames root_name bases)"

text \<open>
  \<open>Parser.parse_classdef\<close>, with the stack \<open>_qual_name_stack\<close> of the parser passed in and
  returned. \<open>pop()\<close> raises \<open>IndexError\<close> on an empty list. \<open>parse_classdefs\<close> is the loop
  \<open>for child in ...: if isinstance(child, ClassDef): results.extend(self.parse_classdef(child))\<close>,
  which both \<open>parse_classdef\<close> and \<open>parse_module\<close> run.
\<close>

fun parse_classdef :: "string \<Rightarrow> classdef \<Rightarrow> string list
    \<Rightarrow> py_error + (substitution list \<times> string list)"
  and parse_classdefs :: "string \<Rightarrow> stmt list \<Rightarrow> string list
    \<Rightarrow> py_error + (substitution list \<times> string list)" where
  "parse_classdef root_name (ClassDef name bases body) qual_name_stack =
     (let stack1 = qual_name_stack @ [name] in
      case (if is_enum root_name bases
            then Inr (parse_enum_body stack1 body, stack1)
            else parse_classdefs root_name body stack1) of
        Inl e \<Rightarrow> Inl e
      | Inr (results, stack2) \<Rightarrow>
          if stack2 = [] then Inl IndexError else Inr (results, butlast stack2))"
| "parse_classdefs root_name [] qual_name_stack = Inr ([], qual_name_stack)"
| "parse_classdefs root_name (ClassStmt c # rest) qual_name_stack =
     (case parse_classdef root_name c qual_name_stack of
        Inl e \<Rightarrow> Inl e
      | Inr (results, stack1) \<Rightarrow>
          (case parse_classdefs root_name rest stack1 of
             Inl e \<Rightarrow> Inl e
           | Inr (others, stack2) \<Rightarrow> Inr (results @ others, stack2)))"
| "parse_classdefs root_name (child # rest) qual_name_stack =
     parse_classdefs root_name rest qual_name_stack"

text \<open>\<open>Parser.parse_module\<close>: the stack is set to the last part of the name of the module,
  whatever it was.\<close>

fun parse_module :: "module \<Rightarrow> string list \<Rightarrow> py_error + (substitution list \<times> string list)" where
  "parse_module (Module name children) qual_name_stack =
     parse_classdefs name children [last (split_on (CHR ''.'') name)]"

text \<open>The class names around each member of the enum classes that \<open>parse_classdef\<close>
  reaches, outermost first, with the name of the member: what the traversal visits,
  told without a stack.\<close>

fun members_of :: "string \<Rightarrow> classdef \<Rightarrow> (string list \<times> string) list"
  and members_in :: "string \<Rightarrow> stmt list \<Rightarrow> (string list \<times> string) list" where
  "members_of root_name (ClassDef name bases body) =
     (if is_enum root_name bases
      then map (\<lambda>p. ([name], fst p)) (parse_enum_body [] body)
      else map (\<lambda>p. (name # fst p, snd p)) (members_in root_name body))"
| "members_in root_name [] = []"
| "members_in root_name (ClassStmt c # rest) = members_of root_name c @ members_in root_name rest"
| "members_in root_name (child # rest) = members_in root_name rest"

definition qualify :: "string list \<Rightarrow> string list \<times> string \<Rightarrow> substitution" where
  "qualify prefix m = (snd m, join ''.'' (prefix @ fst m @ [snd m]))"

section \<open>The command line\<close>

text \<open>
  \<open>main\<close> after \<open>parse_args\<close>: \<open>binding\<close> is the value of \<open>args.binding\<close>, which the
  \<open>append\<close> action leaves at its default \<open>None\<close> when no \<open>-b\<close> is given and else makes the
  list of the values given; \<open>modules\<close> are the trees that \<open>file_build\<close> returns for the
  stub files, in the order \<open>main\<close> reaches them, each under the module name that
  \<open>_parse_file\<close> gave it. \<open>Parser.parse\<close> hands a module to \<open>parse_module\<close>. The parser
  object is one for all files, so its stack goes from one file to the next.
\<close>

fun parse_files :: "module list \<Rightarrow> string list \<Rightarrow> py_error + substitution list" where
  "parse_files [] qual_name_stack = Inr []"
| "parse_files (m # ms) qual_name_stack =
     (case parse_module m qual_name_stack of
        Inl e \<Rightarrow> Inl e
      | Inr (results, stack1) \<Rightarrow>
          (case parse_files ms stack1 of
             Inl e \<Rightarrow> Inl e
           | Inr others \<Rightarrow> Inr (results @ others)))"

definition initial_substitutions :: "substitution list" where
  "initial_substitutions = [(''MidButton'', ''QtCore.Qt.MouseButton.MiddleButton'')]"

text \<open>The loop over \<open>args.binding\<close>: the lines printed, and the error that ends the loop
  if any. \<open>old, new = binding.split(",")\<close> raises \<open>ValueError\<close> unless the list has two
  parts.\<close>

fun print_bindings :: "string list \<Rightarrow> string list \<times> py_error option" where
  "print_bindings [] = ([], None)"
| "print_bindings (binding # rest) =
     (case split_on (CHR '','') binding of
        [old, new] \<Rightarrow>
          (case print_bindings rest of
             (out, e) \<Rightarrow>
               ([''s/import '' @ old @ ''/import '' @ new @ ''/'',
                 ''s/from '' @ old @ '' import/from '' @ new @ '' import/''] @ out, e))
      | _ \<Rightarrow> ([], Some ValueError))"

text \<open>\<open>main\<close>: the lines printed to the standard output, and the return value \<open>0\<close> or the
  exception that ends the run.\<close>

definition main :: "string list option \<Rightarrow> module list \<Rightarrow> string list \<times> (py_error + int)" where
  "main binding modules =
     (case parse_files modules [] of
        Inl e \<Rightarrow> ([], Inl e)
      | Inr found \<Rightarrow>
          (let sed_script = fst (to_sed_script (initial_substitutions @ found)) in
           case binding of
             None \<Rightarrow> ([], Inl TypeError)
           | Some bindings \<Rightarrow>
               (case print_bindings bindings of
                  (out, Some e) \<Rightarrow> (out, Inl e)
                | (out, None) \<Rightarrow> (out @ sed_script, Inr 0))))"

text \<open>The class definitions directly in a body, and the pairs in a returned value.\<close>

fun nested_classes :: "stmt list \<Rightarrow> classdef list" where
  "nested_classes [] = []"
| "nested_classes (ClassStmt c # rest) = c # nested_classes rest"
| "nested_classes (child # rest) = nested_classes rest"

fun results_of :: "py_error + (substitution list \<times> string list) \<Rightarrow> substitution list" where
  "results_of (Inr (results, stack)) = results"
| "results_of (Inl e) = []"

text \<open>The stub file \<open>widgets.pyi\<close> of the end-to-end example, as the tree that
  \<open>file_build\<close> returns for it under the module name \<open>QtWidgets\<close>:
  \<^verbatim>\<open>
  class QAbstractItemView:
      class SelectionMode(enum.Enum):
          MultiSelection: int
  \<close>
  \<open>lookup\<close> is the lookup of the scope of the base \<open>enum.Enum\<close>.\<close>

definition example_module :: "(string \<Rightarrow> binding list) \<Rightarrow> module" where
  "example_module lookup =
     Module ''QtWidgets''
       [ClassStmt (ClassDef ''QAbstractItemView'' []
          [ClassStmt (ClassDef ''SelectionMode'' [Attribute ''enum.Enum'' lookup]
             [AnnAssign (AssignNameTarget ''MultiSelection'')])])]"

text \<open>The lookup in a file that binds no name, and in one that starts with
  \<open>import enum\<close>.\<close>

definition no_bindings :: "string \<Rightarrow> binding list" where
  "no_bindings name = []"

definition enum_imported :: "string \<Rightarrow> binding list" where
  "enum_imported name = (if name = ''enum'' then [Import [(''enum'', None)]] else [])"

text \<open>The two lines printed for a binding \<open>OLD,NEW\<close>.\<close>

definition binding_lines :: "string \<times> string \<Rightarrow> string list" where
  "binding_lines p =
     [''s/import '' @ fst p @ ''/import '' @ snd p @ ''/'',
      ''s/from '' @ fst p @ '' import/from '' @ snd p @ '' import/'']"

text \<open>The binding sites that end the loop of \<open>resolve_qualname\<close>.\<close>

fun stops :: "binding \<Rightarrow> bool" where
  "stops (ImportFrom imp) = True"
| "stops (Import import_names) = True"
| "stops (ClassDefSite qname) = True"
| "stops b = False"




definition builtins_assign_node :: node where
  "builtins_assign_node =
     expr_node (\<lambda>name. if name = ''x'' then [AssignName ''builtins'' ''x''] else [])"



definition twice_assigned_node :: node where
  "twice_assigned_node =
     expr_node (\<lambda>name. if name = ''Flag''
        then [AssignName ''QtCore'' ''Flag'', OtherSite, AssignName ''QtCore.Qt'' ''Flag'', OtherSite]
        else [])"

section \<open>The script as sed runs it\<close>

text \<open>
  The lines of the script are substitute commands with the flag \<open>g\<close>, read by sed with
  extended regular expressions (\<open>sed -E\<close>). What a line does to a text is not code of
  the repository: the definitions of this section are the syntax of such a command, its
  rendering as the line, and what POSIX says a substitute command does to a pattern space
  of one line.
\<close>

text \<open>An item of a bracket expression: one character or a range of character codes.\<close>

datatype bitem = Single char | Range char char

text \<open>An extended regular expression: a bracket expression (negated or not), an ordinary
  character, an escaped character, the anchors \<open>^\<close> and \<open>$\<close>, the empty expression,
  concatenation, alternation, a group in parentheses, and the duplications \<open>*\<close>, \<open>+\<close>
  and \<open>?\<close>.\<close>

datatype regex =
    Bracket bool "bitem list"
  | Lit char
  | Esc char
  | Bol
  | Eol
  | Eps
  | Cat regex regex
  | Alt regex regex
  | Group regex
  | Star regex
  | Plus regex
  | Opt regex

text \<open>An item of a replacement: an ordinary character or a back-reference \<open>\<close>\<open>1\<close> to
  \<open>\<close>\<open>9\<close>.\<close>

datatype ritem = RLit char | RRef nat

text \<open>The command \<open>s/regex/replacement/g\<close>.\<close>

datatype sed_command = Substitute regex "ritem list"

fun render_item :: "bitem \<Rightarrow> string" where
  "render_item (Single c) = [c]"
| "render_item (Range a b) = [a, CHR ''-'', b]"

fun render :: "regex \<Rightarrow> string" where
  "render (Bracket negated items) =
     ''['' @ (if negated then ''^'' else []) @ concat (map render_item items) @ '']''"
| "render (Lit c) = [c]"
| "render (Esc c) = [bsl, c]"
| "render Bol = ''^''"
| "render Eol = ''$''"
| "render Eps = []"
| "render (Cat a b) = render a @ render b"
| "render (Alt a b) = render a @ ''|'' @ render b"
| "render (Group r) = ''('' @ render r @ '')''"
| "render (Star r) = render r @ ''*''"
| "render (Plus r) = render r @ ''+''"
| "render (Opt r) = render r @ ''?''"

definition digit :: "nat \<Rightarrow> char" where
  "digit n = char_of (of_char (CHR ''0'') + n)"

fun render_ritem :: "ritem \<Rightarrow> string" where
  "render_ritem (RLit c) = [c]"
| "render_ritem (RRef n) = [bsl, digit n]"

fun render_command :: "sed_command \<Rightarrow> string" where
  "render_command (Substitute r replacement) =
     ''s/'' @ render r @ ''/'' @ concat (map render_ritem replacement) @ ''/g''"

subsection \<open>The commands of the two rules\<close>

definition ident_items :: "bitem list" where
  "ident_items = [Range (CHR ''a'') (CHR ''z''), Range (CHR ''A'') (CHR ''Z''),
     Range (CHR ''0'') (CHR ''9''), Single (CHR ''_''), Single (CHR ''.'')]"

definition first_items :: "bitem list" where
  "first_items = [Range (CHR ''a'') (CHR ''z''), Range (CHR ''A'') (CHR ''P''),
     Range (CHR ''R'') (CHR ''Z''), Range (CHR ''0'') (CHR ''9''), Single (CHR ''_''),
     Single (CHR ''.'')]"

definition second_items :: "bitem list" where
  "second_items = [Range (CHR ''a'') (CHR ''s''), Range (CHR ''u'') (CHR ''z''),
     Range (CHR ''0'') (CHR ''9''), Single (CHR ''_''), Single (CHR ''.'')]"

text \<open>\<open>([^a-zA-Z0-9_.]|^)\<close> and \<open>([^a-zA-Z0-9_.]|$)\<close>\<close>

definition lead_boundary :: regex where
  "lead_boundary = Group (Alt (Bracket True ident_items) Bol)"

definition trail_boundary :: regex where
  "trail_boundary = Group (Alt (Bracket True ident_items) Eol)"

text \<open>\<open>[a-zA-PR-Z0-9_.]([a-su-z0-9_.][a-zA-Z0-9_.]*)?\<close>, the base name of the generic
  rule.\<close>

definition base_name :: regex where
  "base_name =
     Cat (Bracket False first_items)
       (Opt (Group (Cat (Bracket False second_items) (Star (Bracket False ident_items)))))"

text \<open>A text put into the pattern as it is, read as ordinary characters: right for a
  text of letters, digits and underscores, which a member name is.\<close>

fun literal :: "string \<Rightarrow> regex" where
  "literal [] = Eps"
| "literal (c # cs) = Cat (Lit c) (literal cs)"

definition generic_regex :: "string \<Rightarrow> regex" where
  "generic_regex member =
     Cat lead_boundary
       (Cat base_name (Cat (Esc (CHR ''.'')) (Cat (literal member) trail_boundary)))"

text \<open>The command of the generic rule. The qualified name stands in the replacement as
  ordinary characters: right for a dotted path of identifiers.\<close>

definition generic_command :: "string \<Rightarrow> string \<Rightarrow> sed_command" where
  "generic_command member qual_name =
     Substitute (generic_regex member) ([RRef 1] @ map RLit qual_name @ [RRef 3])"

subsection \<open>Matching\<close>

text \<open>Character codes order the characters of a range.\<close>

fun in_item :: "char \<Rightarrow> bitem \<Rightarrow> bool" where
  "in_item c (Single d) = (c = d)"
| "in_item c (Range a b) = (a \<le> c \<and> c \<le> b)"

definition in_bracket :: "bool \<Rightarrow> bitem list \<Rightarrow> char \<Rightarrow> bool" where
  "in_bracket negated items c = (list_ex (in_item c) items \<noteq> negated)"

text \<open>The groups of an expression, which are numbered by their opening parentheses.\<close>

fun ngroups :: "regex \<Rightarrow> nat" where
  "ngroups (Cat a b) = ngroups a + ngroups b"
| "ngroups (Alt a b) = ngroups a + ngroups b"
| "ngroups (Group r) = Suc (ngroups r)"
| "ngroups (Star r) = ngroups r"
| "ngroups (Plus r) = ngroups r"
| "ngroups (Opt r) = ngroups r"
| "ngroups r = 0"

text \<open>
  A place in the pattern space is the number of characters before it and the text from
  it on. \<open>matches r g p\<close> lists every way \<open>r\<close> matches from the place \<open>p\<close>, when \<open>g\<close>
  groups open before \<open>r\<close>: the place where the match ends, and the text of each group
  that took part (the latest text of a group first). \<open>^\<close> matches at the start of the
  pattern space and \<open>$\<close> at its end. An iteration of a star that matches the empty text
  is not repeated.
\<close>

type_synonym place = "nat \<times> string"
type_synonym captures = "(nat \<times> string) list"

fun weight :: "regex \<Rightarrow> nat" where
  "weight (Cat a b) = Suc (weight a + weight b)"
| "weight (Alt a b) = Suc (weight a + weight b)"
| "weight (Group r) = Suc (weight r)"
| "weight (Star r) = Suc (weight r)"
| "weight (Plus r) = Suc (Suc (weight r))"
| "weight (Opt r) = Suc (weight r)"
| "weight r = 0"

definition step_char :: "(char \<Rightarrow> bool) \<Rightarrow> place \<Rightarrow> (place \<times> captures) list" where
  "step_char ok p =
     (case snd p of
        [] \<Rightarrow> []
      | c # cs \<Rightarrow> if ok c then [((Suc (fst p), cs), [])] else [])"

definition shorter :: "place \<Rightarrow> place \<times> captures \<Rightarrow> bool" where
  "shorter p m = (length (snd (fst m)) < length (snd p))"

definition with_earlier :: "captures \<Rightarrow> place \<times> captures \<Rightarrow> place \<times> captures" where
  "with_earlier c1 m = (fst m, snd m @ c1)"

function matches :: "regex \<Rightarrow> nat \<Rightarrow> place \<Rightarrow> (place \<times> captures) list" where
  "matches (Bracket negated items) g p = step_char (in_bracket negated items) p"
| "matches (Lit d) g p = step_char (\<lambda>c. c = d) p"
| "matches (Esc d) g p = step_char (\<lambda>c. c = d) p"
| "matches Bol g p = (if fst p = 0 then [(p, [])] else [])"
| "matches Eol g p = (if snd p = [] then [(p, [])] else [])"
| "matches Eps g p = [(p, [])]"
| "matches (Cat a b) g p =
     concat (map (\<lambda>m. map (with_earlier (snd m)) (matches b (g + ngroups a) (fst m))) (matches a g p))"
| "matches (Alt a b) g p = matches a g p @ matches b (g + ngroups a) p"
| "matches (Group r) g p =
     map (\<lambda>m. (fst m, (Suc g, take (fst (fst m) - fst p) (snd p)) # snd m))
       (matches r (Suc g) p)"
| "matches (Star r) g p =
     concat (map (\<lambda>m. map (with_earlier (snd m)) (matches (Star r) g (fst m)))
               (filter (shorter p) (matches r g p)))
       @ [(p, [])]"
| "matches (Plus r) g p =
     concat (map (\<lambda>m. map (with_earlier (snd m)) (matches (Star r) g (fst m))) (matches r g p))"
| "matches (Opt r) g p = matches r g p @ [(p, [])]"
  by pat_completeness auto
termination
  by (relation "measures [\<lambda>(r, g, p). weight r, \<lambda>(r, g, p). length (snd p)]")
     (auto simp: shorter_def)

text \<open>The equation of the star unfolds under its own recursive call: it is used by
  hand.\<close>

declare matches.simps(10) [simp del]

subsection \<open>The substitute command\<close>

text \<open>Of the matches from a place the longest one is taken, the first of them in the
  list when several are as long.\<close>

fun best :: "(place \<times> captures) list \<Rightarrow> (place \<times> captures) option" where
  "best [] = None"
| "best (m # ms) =
     (case best ms of
        None \<Rightarrow> Some m
      | Some b \<Rightarrow> if fst (fst m) < fst (fst b) then Some b else Some m)"

text \<open>A back-reference to a group that took no part in the match is the empty text.\<close>

fun expand :: "captures \<Rightarrow> ritem \<Rightarrow> string" where
  "expand caps (RLit c) = [c]"
| "expand caps (RRef n) = (case map_of caps n of None \<Rightarrow> [] | Some t \<Rightarrow> t)"

text \<open>
  \<open>s/regex/replacement/g\<close> on the text from a place on: the leftmost match is
  replaced, the longest one from its start, and the search goes on behind it; where
  nothing matches, the character is copied. An empty match is replaced too, unless it
  stands right behind the match before it; the character behind it is copied.
  \<open>after_match\<close> says that a match ended at the place.
\<close>

function substitute_from :: "regex \<Rightarrow> ritem list \<Rightarrow> place \<Rightarrow> bool \<Rightarrow> string" where
  "substitute_from r replacement p after_match =
     (case best (matches r 0 p) of
        Some m \<Rightarrow>
          if shorter p m
          then concat (map (expand (snd m)) replacement) @ substitute_from r replacement (fst m) True
          else (if after_match then [] else concat (map (expand (snd m)) replacement))
                 @ (case snd p of
                      [] \<Rightarrow> []
                    | c # cs \<Rightarrow> c # substitute_from r replacement (Suc (fst p), cs) False)
      | None \<Rightarrow>
          (case snd p of
             [] \<Rightarrow> []
           | c # cs \<Rightarrow> c # substitute_from r replacement (Suc (fst p), cs) False))"
  by pat_completeness auto
termination
  by (relation "measure (\<lambda>(r, replacement, p, after_match). length (snd p))")
     (auto simp: shorter_def)

declare substitute_from.simps [simp del]

text \<open>A command applied to a line.\<close>

fun sed :: "sed_command \<Rightarrow> string \<Rightarrow> string" where
  "sed (Substitute r replacement) line = substitute_from r replacement (0, line) False"

text \<open>The characters of identifiers, and those of dotted paths.\<close>

definition ident_char :: "char \<Rightarrow> bool" where
  "ident_char c =
     ((CHR ''a'' \<le> c \<and> c \<le> CHR ''z'') \<or> (CHR ''A'' \<le> c \<and> c \<le> CHR ''Z'')
      \<or> (CHR ''0'' \<le> c \<and> c \<le> CHR ''9'') \<or> c = CHR ''_'')"

definition path_char :: "char \<Rightarrow> bool" where
  "path_char c = (ident_char c \<or> c = CHR ''.'')"

text \<open>The texts that the base name of the generic rule matches in full: a first
  character of \<open>[a-zA-PR-Z0-9_.]\<close>, then nothing, or a character of \<open>[a-su-z0-9_.]\<close> and
  any characters of \<open>[a-zA-Z0-9_.]\<close>.\<close>

fun base_accepted :: "string \<Rightarrow> bool" where
  "base_accepted [] = False"
| "base_accepted [c] = in_bracket False first_items c"
| "base_accepted (c # d # ds) =
     (in_bracket False first_items c \<and> in_bracket False second_items d \<and> list_all path_char ds)"

subsection \<open>Lines as pieces\<close>

text \<open>
  A line is a sequence of pieces: a separator, of characters that are neither of an
  identifier nor a dot, and behind it a run of identifier characters and dots. Every
  piece but the first has a separator.
\<close>

lemma length_dropWhile_both:
  "s \<noteq> [] \<Longrightarrow> length (dropWhile P (dropWhile (\<lambda>c. \<not> P c) s)) < length s"
proof (cases s)
  case Nil
  assume "s \<noteq> []"
  with Nil show ?thesis by simp
next
  case (Cons c cs)
  have "length (dropWhile P (dropWhile (\<lambda>c. \<not> P c) cs)) \<le> length cs"
    using length_dropWhile_le [of P "dropWhile (\<lambda>c. \<not> P c) cs"]
      length_dropWhile_le [of "\<lambda>c. \<not> P c" cs] by simp
  moreover have "length (dropWhile P cs) \<le> length cs"
    by (rule length_dropWhile_le)
  ultimately show ?thesis using Cons by simp
qed

function split_runs :: "string \<Rightarrow> (string \<times> string) list" where
  "split_runs s =
     (if s = [] then []
      else (takeWhile (\<lambda>c. \<not> path_char c) s,
            takeWhile path_char (dropWhile (\<lambda>c. \<not> path_char c) s))
           # split_runs (dropWhile path_char (dropWhile (\<lambda>c. \<not> path_char c) s)))"
  by pat_completeness auto
termination
  by (relation "measure length") (simp_all add: length_dropWhile_both)

declare split_runs.simps [simp del]

definition unsplit :: "(string \<times> string) list \<Rightarrow> string" where
  "unsplit ps = concat (map (\<lambda>p. fst p @ snd p) ps)"

text \<open>\<open>s\<close> ends with \<open>t\<close>.\<close>

definition ends_with :: "string \<Rightarrow> string \<Rightarrow> bool" where
  "ends_with s t = (length t \<le> length s \<and> drop (length s - length t) s = t)"

text \<open>A run that the pattern of the generic rule takes between its boundaries: a base
  that the base name accepts, a dot and the member.\<close>

definition occurrence :: "string \<Rightarrow> string \<Rightarrow> bool" where
  "occurrence member run =
     (ends_with run (''.'' @ member) \<and>
      base_accepted (take (length run - length (''.'' @ member)) run))"

text \<open>
  What the generic rule does to the pieces of a line, from the left: a run that is an
  occurrence becomes the qualified name, unless the occurrence before it was rewritten
  and only one character stands between the two, which the match before has taken as its
  closing boundary. \<open>consumed\<close> says that the run before was rewritten.
\<close>

fun rewrite_runs :: "string \<Rightarrow> string \<Rightarrow> bool \<Rightarrow> (string \<times> string) list
    \<Rightarrow> (string \<times> string) list" where
  "rewrite_runs member qual_name consumed [] = []"
| "rewrite_runs member qual_name consumed ((sep, run) # ps) =
     (let hit = (occurrence member run \<and> \<not> (consumed \<and> length sep = 1))
      in (sep, if hit then qual_name else run) # rewrite_runs member qual_name hit ps)"

text \<open>No occurrence of the line is passed over in that way.\<close>

fun none_skipped :: "string \<Rightarrow> bool \<Rightarrow> (string \<times> string) list \<Rightarrow> bool" where
  "none_skipped member consumed [] = True"
| "none_skipped member consumed ((sep, run) # ps) =
     (\<not> (occurrence member run \<and> consumed \<and> length sep = 1) \<and>
      none_skipped member (occurrence member run \<and> \<not> (consumed \<and> length sep = 1)) ps)"

text \<open>The member and the qualified name of the end-to-end example.\<close>

definition example_member :: string where
  "example_member = ''MultiSelection''"

definition example_qual_name :: string where
  "example_qual_name = ''QtWidgets.QAbstractItemView.SelectionMode.MultiSelection''"

section \<open>Properties of the substitution compiler\<close>

lemma script_loop_eq:
  "script_loop xs (r, d) =
     (r @ concat (map (\<lambda>p. [generic_rule (fst p) (snd p), legacy_rule (snd p)]) xs),
      foldl (\<lambda>d p. dict_append d (fst p) (snd p)) d xs)"
  by (induction xs arbitrary: r d) auto

lemma script_of_sorted:
  "fst (to_sed_script subs) =
     concat (map (\<lambda>p. [generic_rule (fst p) (snd p), legacy_rule (snd p)]) (sorted_substitutions subs))"
  by (simp add: to_sed_script_def script_loop_eq)









lemma dict_append_keys:
  "map fst (dict_append d k v) = (if k \<in> fst ` set d then map fst d else map fst d @ [k])"
  by (induction d k v rule: dict_append.induct) (auto simp: image_iff)

lemma dict_append_distinct:
  "distinct (map fst d) \<Longrightarrow> distinct (map fst (dict_append d k v))"
  by (simp add: dict_append_keys)

lemma dict_append_map_of:
  "map_of (dict_append d k v) k' =
     (if k' = k then Some (case map_of d k of None \<Rightarrow> [v] | Some vs \<Rightarrow> vs @ [v])
      else map_of d k')"
  by (induction d k v rule: dict_append.induct) auto

lemma grouped_fold:
  "distinct (map fst d) \<Longrightarrow>
   distinct (map fst (foldl (\<lambda>d p. dict_append d (fst p) (snd p)) d xs)) \<and>
   map_of (foldl (\<lambda>d p. dict_append d (fst p) (snd p)) d xs) k =
     (if quals_of k xs = [] then map_of d k
      else Some ((case map_of d k of None \<Rightarrow> [] | Some vs \<Rightarrow> vs) @ quals_of k xs))"
proof (induction xs arbitrary: d)
  case Nil
  then show ?case by (simp add: quals_of_def)
next
  case (Cons p xs)
  from Cons.IH [OF dict_append_distinct [OF Cons.prems], of "fst p" "snd p"]
  show ?case
    by (auto simp: quals_of_def dict_append_map_of split: option.splits)
qed

lemma member_qual_names_of_eq:
  "member_qual_names_of subs =
     foldl (\<lambda>d p. dict_append d (fst p) (snd p)) [] (sorted_substitutions subs)"
  by (simp add: member_qual_names_of_def script_loop_eq)

lemma grouped_lookup:
  "distinct (map fst (member_qual_names_of subs)) \<and>
   map_of (member_qual_names_of subs) k =
     (if quals_of k (sorted_substitutions subs) = [] then None
      else Some (quals_of k (sorted_substitutions subs)))"
  using grouped_fold [of "[]" "sorted_substitutions subs" k]
  by (simp add: member_qual_names_of_eq)

lemma distinct_filter_key:
  "distinct (map fst d) \<Longrightarrow> map_of d k = Some v \<Longrightarrow> filter (\<lambda>g. fst g = k) d = [(k, v)]"
proof (induction d)
  case Nil
  then show ?case by simp
next
  case (Cons a d)
  show ?case
  proof (cases "fst a = k")
    case True
    with Cons.prems have "k \<notin> fst ` set d" by auto
    then have "filter (\<lambda>g. fst g = k) d = []" by (auto simp: filter_empty_conv)
    with True Cons.prems show ?thesis by (cases a) auto
  next
    case False
    with Cons show ?thesis by (cases a) auto
  qed
qed

lemma quals_of_set: "set (quals_of member (sorted_substitutions subs)) = {q. (member, q) \<in> set subs}"
proof -
  have "set (sorted_substitutions subs) = set subs"
    by (simp add: sorted_substitutions_def)
  then show ?thesis by (force simp: quals_of_def)
qed

lemma two_distinct_length:
  assumes "a \<in> set xs" "b \<in> set xs" "a \<noteq> b"
  shows "1 < length xs"
proof -
  from assms have "{a, b} \<subseteq> set xs" by simp
  then have "card {a, b} \<le> card (set xs)" by (intro card_mono) auto
  also have "card (set xs) \<le> length xs" by (rule card_length)
  finally show ?thesis using assms(3) by simp
qed

lemma generic_in_script:
  "(member, q) \<in> set subs \<Longrightarrow> generic_rule member q \<in> set (fst (to_sed_script subs))"
proof -
  assume "(member, q) \<in> set subs"
  then have "(member, q) \<in> set (sorted_substitutions subs)"
    by (simp add: sorted_substitutions_def)
  then show ?thesis by (force simp: script_of_sorted)
qed


text \<open>
  Claim C4. A member that the input maps to two distinct qualified names gets exactly one
  warning: among the groups warned about, exactly one is the member's; the diagnostic
  lines are the warning lines of those groups; the member's line names the member, then
  the last qualified name recorded for it in sorted order, then all the qualified names
  recorded for it, which are the qualified names the input gives the member; and the
  script holds the generic rule of every one of those qualified names. The compiler has
  no failing branch.
\<close>

theorem C4_ambiguity:
  assumes "(member, q1) \<in> set subs" and "(member, q2) \<in> set subs" and "q1 \<noteq> q2"
  shows "filter (\<lambda>g. fst g = member) (warned (member_qual_names_of subs)) =
           [(member, quals_of member (sorted_substitutions subs))] \<and>
         snd (to_sed_script subs) = map warning_line (warned (member_qual_names_of subs)) \<and>
         warning_line (member, quals_of member (sorted_substitutions subs)) =
           ''* Will substitute `'' @ member @ ''` to `''
             @ last (quals_of member (sorted_substitutions subs))
             @ ''`, but could be any of `''
             @ join ''`, `'' (quals_of member (sorted_substitutions subs)) @ ''`'' \<and>
         set (quals_of member (sorted_substitutions subs)) = {q. (member, q) \<in> set subs} \<and>
         (\<forall>q. (member, q) \<in> set subs \<longrightarrow> generic_rule member q \<in> set (fst (to_sed_script subs)))"
proof -
  let ?qs = "quals_of member (sorted_substitutions subs)"
  have s: "set ?qs = {q. (member, q) \<in> set subs}" by (rule quals_of_set)
  with assms have "q1 \<in> set ?qs" "q2 \<in> set ?qs" by simp_all
  from two_distinct_length [OF this assms(3)] have len: "1 < length ?qs" .
  then have ne: "?qs \<noteq> []" by auto
  from grouped_lookup [of subs member] ne
  have dist: "distinct (map fst (member_qual_names_of subs))"
    and look: "map_of (member_qual_names_of subs) member = Some ?qs" by simp_all
  have "filter (\<lambda>g. fst g = member) (warned (member_qual_names_of subs)) =
      filter (\<lambda>g. length (snd g) > 1) (filter (\<lambda>g. fst g = member) (member_qual_names_of subs))"
    by (simp add: warned_def conj_commute)
  also have "\<dots> = [(member, ?qs)]"
    using distinct_filter_key [OF dist look] len by simp
  finally have a: "filter (\<lambda>g. fst g = member) (warned (member_qual_names_of subs)) = [(member, ?qs)]" .
  have b: "snd (to_sed_script subs) = map warning_line (warned (member_qual_names_of subs))"
    by (simp add: to_sed_script_def member_qual_names_of_def split: prod.splits)
  have c: "warning_line (member, ?qs) =
           ''* Will substitute `'' @ member @ ''` to `'' @ last ?qs
             @ ''`, but could be any of `'' @ join ''`, `'' ?qs @ ''`''"
    by (simp add: warning_line_def)
  have d: "\<forall>q. (member, q) \<in> set subs \<longrightarrow> generic_rule member q \<in> set (fst (to_sed_script subs))"
    using generic_in_script by blast
  from a b c s d show ?thesis by blast
qed

theorem C4_ambiguity_witness:
  "filter (\<lambda>g. fst g = ''Horizontal'')
     (warned (member_qual_names_of
        [(''Horizontal'', ''QtCore.Qt.Orientation.Horizontal''),
         (''Horizontal'', ''QtCharts.QChart.Direction.Horizontal'')])) =
     [(''Horizontal'', [''QtCharts.QChart.Direction.Horizontal'', ''QtCore.Qt.Orientation.Horizontal''])] \<and>
   generic_rule ''Horizontal'' ''QtCharts.QChart.Direction.Horizontal''
     \<in> set (fst (to_sed_script
        [(''Horizontal'', ''QtCore.Qt.Orientation.Horizontal''),
         (''Horizontal'', ''QtCharts.QChart.Direction.Horizontal'')]))"
proof -
  let ?ex = "[(''Horizontal'', ''QtCore.Qt.Orientation.Horizontal''),
         (''Horizontal'', ''QtCharts.QChart.Direction.Horizontal'')]"
  have ss: "sorted_substitutions ?ex =
     [(''Horizontal'', ''QtCharts.QChart.Direction.Horizontal''),
      (''Horizontal'', ''QtCore.Qt.Orientation.Horizontal'')]"
    by (simp add: sorted_substitutions_def sort_key_of_def first_segment_def
        PREFFERED_QT_MODULES_def less_eq_prod_def)
  have h1: "(''Horizontal'', ''QtCore.Qt.Orientation.Horizontal'') \<in> set ?ex" by simp
  have h2: "(''Horizontal'', ''QtCharts.QChart.Direction.Horizontal'') \<in> set ?ex" by simp
  have h3: "''QtCore.Qt.Orientation.Horizontal'' \<noteq> ''QtCharts.QChart.Direction.Horizontal''" by simp
  from C4_ambiguity [OF h1 h2 h3] ss show ?thesis
    by (simp add: quals_of_def)
qed

section \<open>Properties of the extractor and of the command line\<close>

lemma parse_enum_body_qualify:
  "parse_enum_body stack body =
     map (\<lambda>p. (fst p, join ''.'' (stack @ [fst p]))) (parse_enum_body [] body)"
  by (induction stack body rule: parse_enum_body.induct)
     (auto simp: parse_enum_member_def get_qual_name_def split: option.splits)

lemma parse_balanced:
  "parse_classdef root_name c stack = Inr (map (qualify stack) (members_of root_name c), stack)"
  "parse_classdefs root_name body stack = Inr (map (qualify stack) (members_in root_name body), stack)"
proof (induction root_name c stack and root_name body stack
    rule: parse_classdef_parse_classdefs.induct)
  case (1 root_name name bases body qual_name_stack)
  show ?case
  proof (cases "is_enum root_name bases")
    case True
    then show ?thesis
      using parse_enum_body_qualify [of "qual_name_stack @ [name]" body]
      by (simp add: qualify_def comp_def)
  next
    case False
    with 1 show ?thesis by (simp add: qualify_def comp_def)
  qed
qed simp_all

lemma parse_module_eq:
  "parse_module (Module name children) stack0 =
     Inr (map (qualify [last (split_on (CHR ''.'') name)]) (members_in name children),
          [last (split_on (CHR ''.'') name)])"
  by (simp add: parse_balanced)

lemma parse_files_total: "\<exists>found. parse_files modules stack = Inr found"
proof (induction modules arbitrary: stack)
  case Nil
  show ?case by simp
next
  case (Cons m ms)
  obtain name children where m: "m = Module name children" by (cases m)
  from Cons [of "[last (split_on (CHR ''.'') name)]"] show ?case
    by (auto simp: m parse_balanced)
qed

lemma members_in_nested:
  "members_in root_name body = concat (map (members_of root_name) (nested_classes body))"
  by (induction body rule: nested_classes.induct) simp_all

lemma is_enum_iff:
  "is_enum root_name bases \<longleftrightarrow>
     (\<exists>base \<in> set (get_full_basenames root_name bases). first_segment base = ''enum'')"
  by (simp add: is_enum_def list_ex_iff)

text \<open>
  Claim C5. A class none of whose resolved bases has the leading segment \<open>enum\<close> yields
  exactly the pairs that \<open>parse_classdef\<close> returns for the class definitions directly in
  its body, in their order, and no pair when its body holds no class definition: the
  annotated assignments of its own body yield nothing. The stack is returned as it was.
\<close>

theorem C5_non_enum_class:
  assumes "\<forall>base \<in> set (get_full_basenames root_name bases). first_segment base \<noteq> ''enum''"
  shows "parse_classdef root_name (ClassDef name bases body) stack =
           Inr (concat (map (\<lambda>c. results_of (parse_classdef root_name c (stack @ [name])))
                  (nested_classes body)), stack) \<and>
         (nested_classes body = [] \<longrightarrow>
            parse_classdef root_name (ClassDef name bases body) stack = Inr ([], stack))"
proof -
  from assms have ne: "\<not> is_enum root_name bases" by (simp add: is_enum_iff)
  have "parse_classdef root_name (ClassDef name bases body) stack =
      Inr (map (qualify (stack @ [name])) (members_in root_name body), stack)"
    using ne by (simp add: parse_balanced qualify_def comp_def)
  also have "map (qualify (stack @ [name])) (members_in root_name body) =
      concat (map (\<lambda>c. results_of (parse_classdef root_name c (stack @ [name])))
        (nested_classes body))"
    by (simp add: members_in_nested map_concat parse_balanced comp_def)
  finally have a: "parse_classdef root_name (ClassDef name bases body) stack =
           Inr (concat (map (\<lambda>c. results_of (parse_classdef root_name c (stack @ [name])))
                  (nested_classes body)), stack)" .
  then show ?thesis by simp
qed

theorem C5_non_enum_class_witness:
  "get_full_basenames ''QtCore'' [Name ''object'' no_bindings] = [''object''] \<and>
   first_segment ''object'' \<noteq> ''enum'' \<and>
   parse_classdef ''QtCore''
     (ClassDef ''Qt'' [Name ''object'' no_bindings]
        [AnnAssign (AssignNameTarget ''AlignLeft''), OtherStmt]) [''QtCore''] =
     Inr ([], [''QtCore''])"
proof -
  have b: "get_full_basenames ''QtCore'' [Name ''object'' no_bindings] = [''object'']"
    by code_simp
  have f: "first_segment ''object'' \<noteq> ''enum''"
    by (simp add: first_segment_def)
  from b f have h: "\<forall>base \<in> set (get_full_basenames ''QtCore'' [Name ''object'' no_bindings]).
      first_segment base \<noteq> ''enum''"
    by simp
  from C5_non_enum_class [OF h, of "''Qt''"
      "[AnnAssign (AssignNameTarget ''AlignLeft''), OtherStmt]" "[''QtCore'']"] b f
  show ?thesis by simp
qed

text \<open>
  Claim C9. \<open>parse_classdef\<close> never fails and returns the stack it was given, as does the
  loop over class definitions; \<open>parse_module\<close> leaves the one-element stack of the module.
  The pairs returned are the members of the enum classes reached, each qualified by the
  stack on entry followed by the names of the classes around the member: under
  \<open>parse_module\<close> the stack at a member is the name of the module and then the enclosing
  classes, of depth one plus the nesting depth, and the qualified name of the member is
  that stack and the name of the member joined by dots.
\<close>

theorem C9_stack_balanced:
  "parse_classdef root_name c stack =
     Inr (map (qualify stack) (members_of root_name c), stack) \<and>
   parse_classdefs root_name body stack =
     Inr (map (qualify stack) (members_in root_name body), stack) \<and>
   parse_module (Module name children) stack0 =
     Inr (map (qualify [last (split_on (CHR ''.'') name)]) (members_in name children),
          [last (split_on (CHR ''.'') name)]) \<and>
   (\<forall>m \<in> set (members_in name children).
      length ([last (split_on (CHR ''.'') name)] @ fst m) = 1 + length (fst m) \<and>
      qualify [last (split_on (CHR ''.'') name)] m =
        (snd m, join ''.'' (([last (split_on (CHR ''.'') name)] @ fst m) @ [snd m])))"
  by (simp add: parse_balanced qualify_def)

lemma split_on_no_sep: "c \<notin> set s \<Longrightarrow> split_on c s = [s]"
proof -
  assume "c \<notin> set s"
  then have d: "dropWhile (\<lambda>x. x \<noteq> c) s = []" by auto
  show ?thesis by (subst split_on.simps) (simp only: d list.case)
qed

lemma example_base_enum:
  "get_full_basenames ''QtWidgets'' [Attribute ''enum.Enum'' no_bindings] = [''enum.Enum'']"
  "get_full_basenames ''QtWidgets'' [Attribute ''enum.Enum'' enum_imported] = [''enum.Enum'']"
  by code_simp+

lemma example_members:
  "members_in ''QtWidgets''
     [ClassStmt (ClassDef ''QAbstractItemView'' []
        [ClassStmt (ClassDef ''SelectionMode'' [Attribute ''enum.Enum'' no_bindings]
           [AnnAssign (AssignNameTarget ''MultiSelection'')])])] =
   [([''QAbstractItemView'', ''SelectionMode''], ''MultiSelection'')]"
  by (simp add: is_enum_def example_base_enum first_segment_def
      parse_enum_member_def get_qual_name_def get_full_basenames_def [of _ "[]"])

lemma split_QtWidgets: "split_on (CHR ''.'') ''QtWidgets'' = [''QtWidgets'']"
  by (simp add: split_on_no_sep)

theorem C9_stack_balanced_witness:
  "parse_module (example_module no_bindings) [] =
     Inr ([(''MultiSelection'', ''QtWidgets.QAbstractItemView.SelectionMode.MultiSelection'')],
          [''QtWidgets'']) \<and>
   length ([''QtWidgets''] @ [''QAbstractItemView'', ''SelectionMode'']) = 1 + (2::nat)"
proof -
  let ?children = "[ClassStmt (ClassDef ''QAbstractItemView'' []
        [ClassStmt (ClassDef ''SelectionMode'' [Attribute ''enum.Enum'' no_bindings]
           [AnnAssign (AssignNameTarget ''MultiSelection'')])])]"
  from C9_stack_balanced [where name = "''QtWidgets''" and children = ?children
      and ?stack0.0 = "[]", THEN conjunct2, THEN conjunct2, THEN conjunct1]
  have "parse_module (Module ''QtWidgets'' ?children) [] =
     Inr (map (qualify [last (split_on (CHR ''.'') ''QtWidgets'')])
            (members_in ''QtWidgets'' ?children),
          [last (split_on (CHR ''.'') ''QtWidgets'')])" .
  then show ?thesis
    unfolding example_module_def example_members split_QtWidgets
    by (simp only: qualify_def fst_conv snd_conv list.map append.simps last.simps join.simps
        list.size length_append) simp
qed




text \<open>
  Claim C2. With no \<open>-b\<close> argument \<open>args.binding\<close> is \<open>None\<close>, and the loop over it
  raises \<open>TypeError\<close> before anything is printed, whatever the modules parsed.
\<close>

theorem C2_no_binding_raises: "main None modules = ([], Inl TypeError)"
proof -
  from parse_files_total obtain found where "parse_files modules [] = Inr found" by blast
  then show ?thesis by (simp add: main_def)
qed

lemma split_on_two:
  assumes "c \<notin> set a" "c \<notin> set b"
  shows "split_on c (a @ c # b) = [a, b]"
proof -
  from assms(1) have d: "dropWhile (\<lambda>x. x \<noteq> c) (a @ c # b) = c # b"
    by (induction a) auto
  from assms(1) have t: "takeWhile (\<lambda>x. x \<noteq> c) (a @ c # b) = a"
    by (induction a) auto
  show ?thesis
    by (subst split_on.simps) (simp only: d t list.case split_on_no_sep [OF assms(2)])
qed

lemma print_bindings_ok:
  "\<forall>p \<in> set pairs. CHR '','' \<notin> set (fst p) \<and> CHR '','' \<notin> set (snd p) \<Longrightarrow>
   print_bindings (map (\<lambda>p. fst p @ '','' @ snd p) pairs) =
     (concat (map binding_lines pairs), None)"
  by (induction pairs) (simp_all add: split_on_two binding_lines_def)

lemma main_with_bindings:
  assumes "pairs \<noteq> []"
    and "\<forall>p \<in> set pairs. CHR '','' \<notin> set (fst p) \<and> CHR '','' \<notin> set (snd p)"
    and "parse_files modules [] = Inr found"
  shows "main (Some (map (\<lambda>p. fst p @ '','' @ snd p) pairs)) modules =
     (concat (map binding_lines pairs) @ fst (to_sed_script (initial_substitutions @ found)),
      Inr 0)"
  using assms(3) print_bindings_ok [OF assms(2)] by (simp add: main_def)


section \<open>Properties of the name resolver\<close>


lemma resolve_loop_others:
  "\<forall>b \<in> set after. b = OtherSite \<Longrightarrow> resolve_loop basename tl_name cur after = cur"
  by (induction after) auto

lemma resolve_loop_assigns:
  "\<forall>b \<in> set before. \<not> stops b \<Longrightarrow>
   resolve_loop basename tl_name cur (before @ AssignName scope_qname name # rest) =
     resolve_loop basename tl_name (scope_qname @ ''.'' @ name) rest"
proof (induction before arbitrary: cur)
  case Nil
  show ?case by simp
next
  case (Cons b before)
  then show ?case by (cases b) auto
qed

lemma resolve_loop_stop:
  "stops b \<Longrightarrow>
   resolve_loop basename tl_name cur (b # rest) = resolve_loop basename tl_name cur [b]"
  by (cases b) auto

lemma resolve_loop_stop_after:
  "\<forall>b \<in> set before. \<not> stops b \<Longrightarrow> stops b \<Longrightarrow>
   resolve_loop basename tl_name cur (before @ b # rest) = resolve_loop basename tl_name cur' [b]"
proof (induction before arbitrary: cur)
  case Nil
  then show ?case by (cases b) auto
next
  case (Cons a before)
  then show ?case by (cases a) auto
qed




lemma finish_plain:
  "\<not> is_call n \<Longrightarrow> \<not> startswith s ''builtins.'' \<Longrightarrow> \<not> startswith s ''__builtin__.'' \<Longrightarrow>
   finish_qualname n s = s"
  by (simp add: finish_qualname_def)


lemma resolve_alias_plain:
  "\<forall>p \<in> set before. fst p \<noteq> name \<and> snd p \<noteq> Some name \<Longrightarrow>
   resolve_import_alias name (before @ (name, a) # rest) = name"
  by (induction before) auto




text \<open>
  Claim C7, as amended. When no import and no class definition stands before an
  assignment among the binding sites, and only other nodes stand behind it, the loop ends
  with the qualified name of the scope of that assignment, a dot and the assigned name,
  whatever assignments came before; \<open>resolve_qualname\<close> returns that name after the step
  that follows the loop, and the name itself where that step changes nothing. An import or a
  class definition behind the assignment ends the loop at once, with its own result,
  whatever follows it.
\<close>

theorem C7_assignment_loop:
  assumes "assigns_of n (top_level_name_of basename) = before @ AssignName scope_qname name # after"
    and "\<forall>b \<in> set before. \<not> stops b"
    and "\<forall>b \<in> set after. b = OtherSite"
  shows "resolve_loop basename (top_level_name_of basename) basename
           (before @ AssignName scope_qname name # after) = scope_qname @ ''.'' @ name \<and>
         resolve_qualname n basename = finish_qualname n (scope_qname @ ''.'' @ name) \<and>
         (\<not> is_call n \<and> \<not> startswith (scope_qname @ ''.'' @ name) ''builtins.'' \<and>
          \<not> startswith (scope_qname @ ''.'' @ name) ''__builtin__.'' \<longrightarrow>
          resolve_qualname n basename = scope_qname @ ''.'' @ name) \<and>
         (\<forall>b rest cur. stops b \<longrightarrow>
            resolve_loop basename (top_level_name_of basename) cur
              (before @ AssignName scope_qname name # b # rest) =
            resolve_loop basename (top_level_name_of basename) basename [b])"
proof -
  let ?t = "top_level_name_of basename"
  have a: "resolve_loop basename ?t basename (before @ AssignName scope_qname name # after) =
      scope_qname @ ''.'' @ name"
    using resolve_loop_assigns [OF assms(2)] resolve_loop_others [OF assms(3)] by simp
  have b: "resolve_qualname n basename = finish_qualname n (scope_qname @ ''.'' @ name)"
    by (simp add: resolve_qualname_def Let_def assms(1) a)
  have c: "\<not> is_call n \<and> \<not> startswith (scope_qname @ ''.'' @ name) ''builtins.'' \<and>
          \<not> startswith (scope_qname @ ''.'' @ name) ''__builtin__.'' \<longrightarrow>
          resolve_qualname n basename = scope_qname @ ''.'' @ name"
    using b finish_plain by simp
  have d: "\<forall>b rest cur. stops b \<longrightarrow>
            resolve_loop basename ?t cur (before @ AssignName scope_qname name # b # rest) =
            resolve_loop basename ?t basename [b]"
  proof (intro allI impI)
    fix b rest cur
    assume s: "stops b"
    have "resolve_loop basename ?t cur (before @ AssignName scope_qname name # b # rest) =
        resolve_loop basename ?t (scope_qname @ ''.'' @ name) (b # rest)"
      by (rule resolve_loop_assigns [OF assms(2)])
    also have "\<dots> = resolve_loop basename ?t basename [b]"
      using s by (cases b) simp_all
    finally show "resolve_loop basename ?t cur (before @ AssignName scope_qname name # b # rest) =
        resolve_loop basename ?t basename [b]" .
  qed
  from a b c d show ?thesis by blast
qed

text \<open>
  Claim C7 as stated fails: a name assigned at the top level of the module \<open>builtins\<close>
  resolves to the bare name, not to \<open>builtins.x\<close>.
\<close>

theorem C7_assignment_loop_counterexample:
  "assigns_of builtins_assign_node (top_level_name_of ''x'') = [AssignName ''builtins'' ''x''] \<and>
   resolve_qualname builtins_assign_node ''x'' = ''x'' \<and>
   resolve_qualname builtins_assign_node ''x'' \<noteq> ''builtins'' @ ''.'' @ ''x''"
  by code_simp

theorem C7_assignment_loop_witness:
  "assigns_of twice_assigned_node (top_level_name_of ''Flag'') =
     [AssignName ''QtCore'' ''Flag'', OtherSite] @ AssignName ''QtCore.Qt'' ''Flag'' # [OtherSite] \<and>
   \<not> stops (AssignName ''QtCore'' ''Flag'') \<and> \<not> stops OtherSite \<and>
   resolve_qualname twice_assigned_node ''Flag'' = ''QtCore.Qt.Flag''"
proof -
  have h1: "assigns_of twice_assigned_node (top_level_name_of ''Flag'') =
     [AssignName ''QtCore'' ''Flag'', OtherSite] @ AssignName ''QtCore.Qt'' ''Flag'' # [OtherSite]"
    by code_simp
  have h2: "\<forall>b \<in> set [AssignName ''QtCore'' ''Flag'', OtherSite]. \<not> stops b" by simp
  have h3: "\<forall>b \<in> set [OtherSite]. b = OtherSite" by simp
  have f: "finish_qualname twice_assigned_node (''QtCore.Qt'' @ ''.'' @ ''Flag'') = ''QtCore.Qt.Flag''"
    by code_simp
  from C7_assignment_loop [OF h1 h2 h3, THEN conjunct2, THEN conjunct1]
  have "resolve_qualname twice_assigned_node ''Flag'' = ''QtCore.Qt.Flag''"
    by (simp only: f)
  with h1 show ?thesis by simp
qed

section \<open>Properties of the generic rule\<close>

lemma render_literal: "render (literal s) = s"
  by (induction s) simp_all

lemma render_RLit: "concat (map (render_ritem \<circ> RLit) s) = s"
  by (induction s) simp_all

lemma digit_1_3: "digit (Suc 0) = CHR ''1''" "digit 3 = CHR ''3''"
  by code_simp+

lemma render_generic: "render_command (generic_command member qual_name) = generic_rule member qual_name"
  by (simp add: generic_command_def generic_regex_def generic_rule_def lead_boundary_def
      trail_boundary_def base_name_def ident_items_def first_items_def second_items_def
      render_literal render_RLit digit_1_3)

lemma ngroups_parts [simp]:
  "ngroups lead_boundary = 1" "ngroups trail_boundary = 1" "ngroups base_name = 1"
  "ngroups (literal s) = 0"
  by (induction s) (simp_all add: lead_boundary_def trail_boundary_def base_name_def)

lemma Q_not_first: "\<not> in_bracket False first_items (CHR ''Q'')"
  by (simp add: in_bracket_def first_items_def)

lemma base_name_not_Q: "matches base_name g (i, CHR ''Q'' # s) = []"
  by (simp add: base_name_def step_char_def Q_not_first)

lemma path_char_ident_items: "path_char c \<longleftrightarrow> in_bracket False ident_items c"
  by (auto simp: path_char_def ident_char_def in_bracket_def ident_items_def)

lemma in_matches_Cat:
  "x \<in> set (matches (Cat a b) g p) \<longleftrightarrow>
     (\<exists>m1 \<in> set (matches a g p). \<exists>m2 \<in> set (matches b (g + ngroups a) (fst m1)).
        x = with_earlier (snd m1) m2)"
  by auto

lemma with_earlier_Nil [simp]: "with_earlier [] m = m" "map (with_earlier []) ms = ms"
  by (simp_all add: with_earlier_def map_idI)

lemma star_bracket_unfold:
  "matches (Star (Bracket n items)) g (i, s) =
     (case s of
        [] \<Rightarrow> [((i, []), [])]
      | c # cs \<Rightarrow> (if in_bracket n items c then matches (Star (Bracket n items)) g (Suc i, cs)
                   else []) @ [((i, c # cs), [])])"
  by (subst matches.simps(10))
     (simp add: step_char_def shorter_def with_earlier_def split: list.splits)

lemma in_star_path:
  "x \<in> set (matches (Star (Bracket False ident_items)) g (i, s)) \<Longrightarrow>
   \<exists>w. s = w @ snd (fst x) \<and> fst (fst x) = i + length w \<and> list_all path_char w \<and> snd x = []"
proof (induction s arbitrary: i)
  case Nil
  then show ?case by (simp add: star_bracket_unfold)
next
  case (Cons c cs)
  from Cons.prems
  have "x = ((i, c # cs), []) \<or>
    (in_bracket False ident_items c \<and> x \<in> set (matches (Star (Bracket False ident_items)) g (Suc i, cs)))"
    by (subst (asm) star_bracket_unfold) (auto split: if_splits)
  then show ?case
  proof
    assume "x = ((i, c # cs), [])"
    then show ?thesis by simp
  next
    assume h: "in_bracket False ident_items c \<and>
      x \<in> set (matches (Star (Bracket False ident_items)) g (Suc i, cs))"
    with Cons.IH obtain w where
      w: "cs = w @ snd (fst x)" "fst (fst x) = Suc i + length w" "list_all path_char w" "snd x = []"
      by blast
    from h have "path_char c" by (simp add: path_char_ident_items)
    with w have "c # cs = (c # w) @ snd (fst x) \<and> fst (fst x) = i + length (c # w) \<and>
      list_all path_char (c # w) \<and> snd x = []" by simp
    then show ?thesis by blast
  qed
qed

lemma star_path_intro:
  "list_all path_char w \<Longrightarrow>
   ((i + length w, rest), []) \<in> set (matches (Star (Bracket False ident_items)) g (i, w @ rest))"
proof (induction w arbitrary: i)
  case Nil
  show ?case by (subst star_bracket_unfold) (simp split: list.splits)
next
  case (Cons c w)
  from Cons.prems have "list_all path_char w" by simp
  from Cons.IH [OF this, of "Suc i"]
  have "((Suc i + length w, rest), []) \<in>
      set (matches (Star (Bracket False ident_items)) g (Suc i, w @ rest))" .
  with Cons.prems show ?case
    by (subst star_bracket_unfold) (simp add: path_char_ident_items)
qed

lemma first_is_path: "in_bracket False first_items c \<Longrightarrow> path_char c"
  by (auto simp: in_bracket_def first_items_def path_char_def ident_char_def less_eq_char_def)

lemma second_is_path: "in_bracket False second_items c \<Longrightarrow> path_char c"
  by (auto simp: in_bracket_def second_items_def path_char_def ident_char_def less_eq_char_def)

lemma base_accepted_path: "base_accepted w \<Longrightarrow> list_all path_char w"
  by (induction w rule: base_accepted.induct) (simp_all add: first_is_path second_is_path)

lemma base_accepted_first: "base_accepted w \<Longrightarrow> w \<noteq> [] \<and> in_bracket False first_items (hd w)"
  by (induction w rule: base_accepted.induct) simp_all

lemma in_lead_boundary:
  "x \<in> set (matches lead_boundary g (i, s)) \<longleftrightarrow>
     (\<exists>c cs. s = c # cs \<and> \<not> path_char c \<and> x = ((Suc i, cs), [(Suc g, [c])])) \<or>
     (i = 0 \<and> x = ((0, s), [(Suc g, [])]))"
  by (cases s) (auto simp: lead_boundary_def step_char_def path_char_ident_items in_bracket_def)

lemma in_trail_boundary:
  "x \<in> set (matches trail_boundary g (i, s)) \<longleftrightarrow>
     (\<exists>c cs. s = c # cs \<and> \<not> path_char c \<and> x = ((Suc i, cs), [(Suc g, [c])])) \<or>
     (s = [] \<and> x = ((i, []), [(Suc g, [])]))"
  by (cases s) (auto simp: trail_boundary_def step_char_def path_char_ident_items in_bracket_def)

lemma in_Esc:
  "x \<in> set (matches (Esc d) g (i, s)) \<longleftrightarrow> (\<exists>cs. s = d # cs \<and> x = ((Suc i, cs), []))"
  by (cases s) (auto simp: step_char_def)

lemma in_literal:
  "x \<in> set (matches (literal m) g (i, s)) \<longleftrightarrow>
     (\<exists>rest. s = m @ rest \<and> x = ((i + length m, rest), []))"
proof (induction m arbitrary: i s g)
  case Nil
  show ?case by auto
next
  case (Cons c m)
  show ?case
    by (cases s) (auto simp: step_char_def Cons.IH with_earlier_def)
qed

lemma in_base_name:
  assumes "x \<in> set (matches base_name g (i, s))"
  shows "\<exists>w. s = w @ snd (fst x) \<and> fst (fst x) = i + length w \<and> base_accepted w \<and>
           (snd x = [] \<or> (\<exists>t. snd x = [(Suc g, t)]))"
proof (cases s)
  case Nil
  with assms show ?thesis by (simp add: base_name_def step_char_def)
next
  case (Cons c cs)
  with assms have c: "in_bracket False first_items c"
    by (auto simp: base_name_def step_char_def split: if_splits)
  from assms Cons c
  have "x \<in> set (matches (Opt (Group (Cat (Bracket False second_items)
      (Star (Bracket False ident_items))))) g (Suc i, cs))"
    by (simp add: base_name_def step_char_def)
  then have "x = ((Suc i, cs), []) \<or>
    (\<exists>y \<in> set (matches (Cat (Bracket False second_items) (Star (Bracket False ident_items)))
        (Suc g) (Suc i, cs)). x = (fst y, (Suc g, take (fst (fst y) - Suc i) cs) # snd y))"
    by (simp only: matches.simps(9,12) set_append set_map list.set)
       (auto simp del: matches.simps)
  moreover have "\<exists>d ds. cs = d # ds \<and> in_bracket False second_items d \<and>
       y \<in> set (matches (Star (Bracket False ident_items)) (Suc g) (Suc (Suc i), ds))"
    if "y \<in> set (matches (Cat (Bracket False second_items) (Star (Bracket False ident_items)))
        (Suc g) (Suc i, cs))" for y
    using that by (cases cs) (auto simp: step_char_def split: if_splits)
  moreover have "snd y = []"
    if "y \<in> set (matches (Star (Bracket False ident_items)) (Suc g) (Suc (Suc i), ds))" for y ds
    using in_star_path [OF that] by blast
  ultimately have "x = ((Suc i, cs), []) \<or>
    (\<exists>d ds y. cs = d # ds \<and> in_bracket False second_items d \<and>
       y \<in> set (matches (Star (Bracket False ident_items)) (Suc g) (Suc (Suc i), ds)) \<and>
       x = (fst y, [(Suc g, take (fst (fst y) - Suc i) cs)]))"
    by metis
  then show ?thesis
  proof
    assume "x = ((Suc i, cs), [])"
    with Cons c have "s = [c] @ snd (fst x) \<and> fst (fst x) = i + length [c] \<and> base_accepted [c] \<and>
           (snd x = [] \<or> (\<exists>t. snd x = [(Suc g, t)]))" by simp
    then show ?thesis by blast
  next
    assume "\<exists>d ds y. cs = d # ds \<and> in_bracket False second_items d \<and>
       y \<in> set (matches (Star (Bracket False ident_items)) (Suc g) (Suc (Suc i), ds)) \<and>
       x = (fst y, [(Suc g, take (fst (fst y) - Suc i) cs)])"
    then obtain d ds y where h: "cs = d # ds" "in_bracket False second_items d"
      "y \<in> set (matches (Star (Bracket False ident_items)) (Suc g) (Suc (Suc i), ds))"
      "x = (fst y, [(Suc g, take (fst (fst y) - Suc i) cs)])" by blast
    from in_star_path [OF h(3)] obtain w where
      w: "ds = w @ snd (fst y)" "fst (fst y) = Suc (Suc i) + length w" "list_all path_char w"
      by blast
    with Cons c h have "s = (c # d # w) @ snd (fst x) \<and> fst (fst x) = i + length (c # d # w) \<and>
        base_accepted (c # d # w) \<and> (snd x = [] \<or> (\<exists>t. snd x = [(Suc g, t)]))" by simp
    then show ?thesis by blast
  qed
qed

lemma base_name_intro:
  assumes "base_accepted w"
  shows "\<exists>caps. ((i + length w, rest), caps) \<in> set (matches base_name g (i, w @ rest))"
proof (cases w rule: base_accepted.cases)
  case 1
  with assms show ?thesis by simp
next
  case (2 c)
  with assms have "((i + length w, rest), []) \<in> set (matches base_name g (i, w @ rest))"
    by (simp add: base_name_def step_char_def with_earlier_def)
  then show ?thesis by blast
next
  case (3 c d ds)
  with assms have a: "in_bracket False first_items c" "in_bracket False second_items d"
    "list_all path_char ds" by simp_all
  from star_path_intro [OF a(3), of "Suc (Suc i)" rest "Suc g"]
  have "((Suc (Suc i) + length ds, rest), []) \<in>
      set (matches (Star (Bracket False ident_items)) (Suc g) (Suc (Suc i), ds @ rest))" .
  with 3 a have "((i + length w, rest), [(Suc g, take (Suc (length ds)) (d # ds @ rest))]) \<in>
      set (matches base_name g (i, w @ rest))"
    by (simp add: base_name_def step_char_def with_earlier_def image_iff) force
  then show ?thesis by blast
qed

lemma path_run_unique:
  assumes "u @ s = v @ t" "list_all P u" "list_all P v"
    and "s = [] \<or> \<not> P (hd s)" and "t = [] \<or> \<not> P (hd t)"
  shows "u = v \<and> s = t"
proof -
  have tw: "takeWhile P (w @ r) = w" if "list_all P w" "r = [] \<or> \<not> P (hd r)" for w r
    using that by (cases r) (auto simp: list_all_iff takeWhile_append2 intro: takeWhile_eq_all_conv [THEN iffD2])
  from tw [OF assms(2,4)] tw [OF assms(3,5)] assms(1) have "u = v" by simp
  with assms(1) show ?thesis by simp
qed

lemma ident_is_path: "ident_char c \<Longrightarrow> path_char c"
  by (simp add: path_char_def)

lemma best_in: "best ms = Some b \<Longrightarrow> b \<in> set ms"
proof (induction ms arbitrary: b)
  case Nil
  then show ?case by simp
next
  case (Cons m ms)
  then show ?case by (cases "best ms") (auto split: if_splits)
qed

lemma best_none: "best ms = None \<Longrightarrow> ms = []"
  by (cases ms) (auto split: option.splits if_splits)

lemma best_some: "ms \<noteq> [] \<Longrightarrow> \<exists>b. best ms = Some b \<and> b \<in> set ms"
  using best_in best_none by (cases "best ms") auto

lemma expand_qual: "concat (map (expand caps \<circ> RLit) s) = s"
  by (induction s) simp_all

subsection \<open>The matches of the generic rule\<close>

lemma generic_match_analysis:
  assumes member: "list_all ident_char member"
    and x: "x \<in> set (matches (generic_regex member) 0 (i, s))"
  shows "\<exists>lead w rest. s = lead @ w @ ''.'' @ member @ rest \<and> base_accepted w \<and>
           ((lead = [] \<and> i = 0) \<or> (\<exists>c. lead = [c] \<and> \<not> path_char c)) \<and>
           (rest = [] \<or> \<not> path_char (hd rest)) \<and>
           snd (fst x) = drop 1 rest \<and> 0 < fst (fst x) \<and>
           map_of (snd x) 1 = Some lead \<and> map_of (snd x) 3 = Some (take 1 rest)"
proof -
  from in_matches_Cat [THEN iffD1, OF x [unfolded generic_regex_def]] obtain m1 y1 where
    m1: "m1 \<in> set (matches lead_boundary 0 (i, s))" and
    y1: "y1 \<in> set (matches (Cat base_name (Cat (Esc (CHR ''.''))
           (Cat (literal member) trail_boundary))) (Suc 0) (fst m1))" and
    x1: "x = with_earlier (snd m1) y1"
    by (auto simp del: matches.simps)
  from in_matches_Cat [THEN iffD1, OF y1] obtain m2 y2 where
    m2: "m2 \<in> set (matches base_name (Suc 0) (fst m1))" and
    y2: "y2 \<in> set (matches (Cat (Esc (CHR ''.'')) (Cat (literal member) trail_boundary))
           (Suc (Suc 0)) (fst m2))" and
    x2: "y1 = with_earlier (snd m2) y2"
    by (auto simp del: matches.simps)
  from in_matches_Cat [THEN iffD1, OF y2] obtain m3 y3 where
    m3: "m3 \<in> set (matches (Esc (CHR ''.'')) (Suc (Suc 0)) (fst m2))" and
    y3: "y3 \<in> set (matches (Cat (literal member) trail_boundary) (Suc (Suc 0)) (fst m3))" and
    x3: "y2 = with_earlier (snd m3) y3"
    by (auto simp del: matches.simps)
  from in_matches_Cat [THEN iffD1, OF y3] obtain m4 m5 where
    m4: "m4 \<in> set (matches (literal member) (Suc (Suc 0)) (fst m3))" and
    m5: "m5 \<in> set (matches trail_boundary (Suc (Suc 0)) (fst m4))" and
    x4: "y3 = with_earlier (snd m4) m5"
    by (auto simp del: matches.simps)
  from x1 x2 x3 x4 have
    xeq: "fst x = fst m5" "snd x = snd m5 @ snd m4 @ snd m3 @ snd m2 @ snd m1"
    by (simp_all add: with_earlier_def)
  obtain i1 s1 where p1: "fst m1 = (i1, s1)" by (cases "fst m1")
  from m1 [unfolded in_lead_boundary] p1
  obtain lead where l: "s = lead @ s1" "snd m1 = [(1, lead)]"
    "(lead = [] \<and> i = 0) \<or> (\<exists>c. lead = [c] \<and> \<not> path_char c)"
    by auto
  from in_base_name [OF m2 [unfolded p1]] obtain w where
    w: "s1 = w @ snd (fst m2)" "base_accepted w"
      "snd m2 = [] \<or> (\<exists>t. snd m2 = [(2, t)])"
    by (auto simp: numeral_2_eq_2)
  obtain i2 where p2: "fst m2 = (i2, snd (fst m2))" by (cases "fst m2") auto
  from m3 p2 obtain s3 where s3: "snd (fst m2) = CHR ''.'' # s3" "fst m3 = (Suc i2, s3)" "snd m3 = []"
    by (metis in_Esc fst_conv snd_conv)
  from m4 [unfolded s3(2) in_literal] obtain s4 where
    s4: "s3 = member @ s4" "fst m4 = (Suc i2 + length member, s4)" "snd m4 = []"
    by auto
  from m5 [unfolded s4(2) in_trail_boundary]
  have t5: "(\<exists>c cs. s4 = c # cs \<and> \<not> path_char c \<and> m5 = ((Suc (Suc i2 + length member), cs), [(3, [c])]))
      \<or> (s4 = [] \<and> m5 = ((Suc i2 + length member, []), [(3, [])]))"
    by (simp add: numeral_3_eq_3 numeral_2_eq_2)
  then have m5_eq: "(s4 = [] \<or> \<not> path_char (hd s4)) \<and> snd (fst m5) = drop 1 s4 \<and>
      0 < fst (fst m5) \<and> snd m5 = [(3, take 1 s4)]"
    by auto
  from l w(1) s3(1) s4(1) have "s = lead @ w @ ''.'' @ member @ s4" by simp
  moreover from xeq m5_eq s4(3) s3(3) l(2) w(3)
  have "map_of (snd x) 1 = Some lead \<and> map_of (snd x) 3 = Some (take 1 s4)" by auto
  ultimately show ?thesis using w(2) l(3) m5_eq xeq(1) by metis
qed

lemma generic_match_intro:
  assumes base: "base_accepted w"
    and lead: "(lead = [] \<and> i = 0) \<or> (\<exists>c. lead = [c] \<and> \<not> path_char c)"
    and rest: "rest = [] \<or> \<not> path_char (hd rest)"
  shows "matches (generic_regex member) 0 (i, lead @ w @ ''.'' @ member @ rest) \<noteq> []"
proof -
  let ?tail = "w @ ''.'' @ member @ rest"
  obtain m1 where m1: "m1 \<in> set (matches lead_boundary 0 (i, lead @ ?tail))"
    and p1: "fst m1 = (i + length lead, ?tail)"
  proof -
    from lead show ?thesis
    proof
      assume "lead = [] \<and> i = 0"
      then have "((0, lead @ ?tail), [(Suc 0, [])]) \<in> set (matches lead_boundary 0 (i, lead @ ?tail))"
        "fst ((0, lead @ ?tail), [(Suc 0, [])]) = (i + length lead, ?tail)"
        by (simp_all add: in_lead_boundary)
      then show ?thesis by (rule that)
    next
      assume "\<exists>c. lead = [c] \<and> \<not> path_char c"
      then obtain c where c: "lead = [c]" "\<not> path_char c" by blast
      then have "((Suc i, ?tail), [(Suc 0, [c])]) \<in> set (matches lead_boundary 0 (i, lead @ ?tail))"
        "fst ((Suc i, ?tail), [(Suc 0, [c])]) = (i + length lead, ?tail)"
        by (simp_all add: in_lead_boundary)
      then show ?thesis by (rule that)
    qed
  qed
  let ?i1 = "i + length lead"
  from base_name_intro [OF base, of ?i1 "''.'' @ member @ rest" "Suc 0"]
  obtain caps where
    m2: "((?i1 + length w, ''.'' @ member @ rest), caps)
           \<in> set (matches base_name (Suc 0) (?i1, ?tail))"
    by auto
  let ?i3 = "Suc (?i1 + length w)"
  have m3: "((?i3, member @ rest), []) \<in>
      set (matches (Esc (CHR ''.'')) (Suc (Suc 0)) (?i1 + length w, ''.'' @ member @ rest))"
    by (simp add: step_char_def)
  have m4: "((?i3 + length member, rest), []) \<in>
      set (matches (literal member) (Suc (Suc 0)) (?i3, member @ rest))"
    by (simp add: in_literal)
  obtain m5 where m5: "m5 \<in> set (matches trail_boundary (Suc (Suc 0)) (?i3 + length member, rest))"
  proof (cases rest)
    case Nil
    then have "((?i3 + length member, []), [(Suc (Suc (Suc 0)), [])]) \<in>
        set (matches trail_boundary (Suc (Suc 0)) (?i3 + length member, rest))"
      by (simp add: in_trail_boundary)
    then show ?thesis by (rule that)
  next
    case (Cons c cs)
    with rest have "\<not> path_char c" by simp
    with Cons have "((Suc (?i3 + length member), cs), [(Suc (Suc (Suc 0)), [c])]) \<in>
        set (matches trail_boundary (Suc (Suc 0)) (?i3 + length member, rest))"
      by (simp add: in_trail_boundary)
    then show ?thesis by (rule that)
  qed
  have y3: "with_earlier [] m5 \<in>
      set (matches (Cat (literal member) trail_boundary) (Suc (Suc 0)) (?i3, member @ rest))"
    using m4 m5 by (subst in_matches_Cat) force
  have y2: "with_earlier [] (with_earlier [] m5) \<in>
      set (matches (Cat (Esc (CHR ''.'')) (Cat (literal member) trail_boundary)) (Suc (Suc 0))
             (?i1 + length w, ''.'' @ member @ rest))"
    using m3 y3 by (subst in_matches_Cat) force
  have y1: "with_earlier caps (with_earlier [] (with_earlier [] m5)) \<in>
      set (matches (Cat base_name (Cat (Esc (CHR ''.'')) (Cat (literal member) trail_boundary)))
             (Suc 0) (?i1, ?tail))"
    using m2 y2 by (subst in_matches_Cat) force
  have "with_earlier (snd m1) (with_earlier caps (with_earlier [] (with_earlier [] m5))) \<in>
      set (matches (generic_regex member) 0 (i, lead @ ?tail))"
    unfolding generic_regex_def using m1 y1 p1 by (subst in_matches_Cat) force
  then show ?thesis by auto
qed

lemma occurrence_iff:
  "occurrence member run \<longleftrightarrow> (\<exists>w. run = w @ ''.'' @ member \<and> base_accepted w)"
proof
  assume o: "occurrence member run"
  let ?n = "length run - length (''.'' @ member)"
  from o have "drop ?n run = ''.'' @ member" "base_accepted (take ?n run)"
    by (simp_all add: occurrence_def ends_with_def)
  then have "run = take ?n run @ ''.'' @ member \<and> base_accepted (take ?n run)"
    by (metis append_take_drop_id)
  then show "\<exists>w. run = w @ ''.'' @ member \<and> base_accepted w" by blast
next
  assume "\<exists>w. run = w @ ''.'' @ member \<and> base_accepted w"
  then obtain w where "run = w @ ''.'' @ member" "base_accepted w" by blast
  then show "occurrence member run" by (simp add: occurrence_def ends_with_def)
qed

lemma takeWhile_run:
  "list_all P r \<Longrightarrow> rest = [] \<or> \<not> P (hd rest) \<Longrightarrow>
   takeWhile P (r @ rest) = r \<and> dropWhile P (r @ rest) = rest"
  by (cases rest) (auto simp: list_all_iff)

lemma occurrence_path:
  assumes "list_all ident_char member" "base_accepted w"
  shows "list_all path_char (w @ ''.'' @ member)"
  using base_accepted_path [OF assms(2)] assms(1)
  by (auto simp: list_all_iff ident_is_path path_char_def)

text \<open>What a match of the generic rule says about the text at its place.\<close>

lemma match_at_boundary:
  assumes member: "list_all ident_char member"
    and x: "x \<in> set (matches (generic_regex member) 0 (i, c # cs))" and c: "\<not> path_char c"
  shows "occurrence member (takeWhile path_char cs)"
proof -
  from generic_match_analysis [OF member x] obtain lead w rest where
    d: "c # cs = lead @ w @ ''.'' @ member @ rest" "base_accepted w"
      "(lead = [] \<and> i = 0) \<or> (\<exists>c. lead = [c] \<and> \<not> path_char c)"
      "rest = [] \<or> \<not> path_char (hd rest)" by blast
  have w_ne: "w \<noteq> []" "path_char (hd w)"
    using base_accepted_first [OF d(2)] first_is_path by auto
  from d(1,3) w_ne c have "cs = (w @ ''.'' @ member) @ rest"
    by (cases w) auto
  with takeWhile_run [OF occurrence_path [OF member d(2)] d(4)]
  have "takeWhile path_char cs = w @ ''.'' @ member" by simp
  with d(2) show ?thesis by (auto simp: occurrence_iff)
qed

lemma match_at_path:
  assumes member: "list_all ident_char member"
    and x: "x \<in> set (matches (generic_regex member) 0 (i, c # cs))" and c: "path_char c"
  shows "i = 0 \<and> occurrence member (takeWhile path_char (c # cs))"
proof -
  from generic_match_analysis [OF member x] obtain lead w rest where
    d: "c # cs = lead @ w @ ''.'' @ member @ rest" "base_accepted w"
      "(lead = [] \<and> i = 0) \<or> (\<exists>c. lead = [c] \<and> \<not> path_char c)"
      "rest = [] \<or> \<not> path_char (hd rest)" by blast
  from d(1,3) c have l: "lead = [] \<and> i = 0" by auto
  with d(1) have "c # cs = (w @ ''.'' @ member) @ rest" by simp
  with takeWhile_run [OF occurrence_path [OF member d(2)] d(4)]
  have "takeWhile path_char (c # cs) = w @ ''.'' @ member" by simp
  with d(2) l show ?thesis by (auto simp: occurrence_iff)
qed

lemma no_match_empty:
  assumes member: "list_all ident_char member"
  shows "matches (generic_regex member) 0 (i, []) = []"
proof (rule ccontr)
  assume "matches (generic_regex member) 0 (i, []) \<noteq> []"
  then obtain x where "x \<in> set (matches (generic_regex member) 0 (i, []))"
    by (cases "matches (generic_regex member) 0 (i, [])") auto
  from generic_match_analysis [OF member this] show False by auto
qed

lemma no_match_inside:
  assumes member: "list_all ident_char member" and "path_char c" and "0 < i"
  shows "matches (generic_regex member) 0 (i, c # cs) = []"
proof (rule ccontr)
  assume "matches (generic_regex member) 0 (i, c # cs) \<noteq> []"
  then obtain x where "x \<in> set (matches (generic_regex member) 0 (i, c # cs))"
    by (cases "matches (generic_regex member) 0 (i, c # cs)") auto
  from match_at_path [OF member this assms(2)] assms(3) show False by simp
qed

lemma no_match_start:
  assumes member: "list_all ident_char member" and "path_char c"
    and "\<not> occurrence member (takeWhile path_char (c # cs))"
  shows "matches (generic_regex member) 0 (i, c # cs) = []"
proof (rule ccontr)
  assume "matches (generic_regex member) 0 (i, c # cs) \<noteq> []"
  then obtain x where "x \<in> set (matches (generic_regex member) 0 (i, c # cs))"
    by (cases "matches (generic_regex member) 0 (i, c # cs)") auto
  from match_at_path [OF member this assms(2)] assms(3) show False by simp
qed

lemma no_match_boundary:
  assumes member: "list_all ident_char member" and "\<not> path_char c"
    and "\<not> occurrence member (takeWhile path_char cs)"
  shows "matches (generic_regex member) 0 (i, c # cs) = []"
proof (rule ccontr)
  assume "matches (generic_regex member) 0 (i, c # cs) \<noteq> []"
  then obtain x where "x \<in> set (matches (generic_regex member) 0 (i, c # cs))"
    by (cases "matches (generic_regex member) 0 (i, c # cs)") auto
  from match_at_boundary [OF member this assms(2)] assms(3) show False by simp
qed

text \<open>The steps of the substitute command of the generic rule.\<close>

lemma substitute_miss:
  "matches r 0 (i, c # cs) = [] \<Longrightarrow>
   substitute_from r replacement (i, c # cs) flag =
     c # substitute_from r replacement (Suc i, cs) False"
  by (subst substitute_from.simps) simp

lemma substitute_end:
  "list_all ident_char member \<Longrightarrow>
   substitute_from (generic_regex member) replacement (i, []) flag = []"
  by (subst substitute_from.simps) (simp add: no_match_empty)

lemma substitute_hit:
  assumes member: "list_all ident_char member" and base: "base_accepted w"
    and lead: "(lead = [] \<and> i = 0) \<or> (\<exists>c. lead = [c] \<and> \<not> path_char c)"
    and rest: "rest = [] \<or> \<not> path_char (hd rest)"
  shows "\<exists>j. 0 < j \<and>
     substitute_from (generic_regex member) ([RRef 1] @ map RLit qual_name @ [RRef 3])
       (i, lead @ w @ ''.'' @ member @ rest) flag =
     lead @ qual_name @ take 1 rest
       @ substitute_from (generic_regex member) ([RRef 1] @ map RLit qual_name @ [RRef 3])
           (j, drop 1 rest) True"
proof -
  let ?s = "lead @ w @ ''.'' @ member @ rest"
  let ?rep = "[RRef 1] @ map RLit qual_name @ [RRef 3]"
  from best_some [OF generic_match_intro [OF base lead rest, of member]]
  obtain b where b: "best (matches (generic_regex member) 0 (i, ?s)) = Some b"
    "b \<in> set (matches (generic_regex member) 0 (i, ?s))" by blast
  from generic_match_analysis [OF member b(2)] obtain lead' w' rest' where
    d: "?s = lead' @ w' @ ''.'' @ member @ rest'" "base_accepted w'"
      "(lead' = [] \<and> i = 0) \<or> (\<exists>c. lead' = [c] \<and> \<not> path_char c)"
      "rest' = [] \<or> \<not> path_char (hd rest')"
      "snd (fst b) = drop 1 rest'" "0 < fst (fst b)"
      "map_of (snd b) 1 = Some lead'" "map_of (snd b) 3 = Some (take 1 rest')" by blast
  have w_ne: "w \<noteq> []" "path_char (hd w)"
    using base_accepted_first [OF base] first_is_path by auto
  have w'_ne: "w' \<noteq> []" "path_char (hd w')"
    using base_accepted_first [OF d(2)] first_is_path by auto
  have leq: "lead' = lead"
  proof -
    from lead show ?thesis
    proof
      assume e: "lead = [] \<and> i = 0"
      with w_ne have "hd ?s = hd w" by (cases w) auto
      with d(1) have "hd (lead' @ w' @ ''.'' @ member @ rest') = hd w" by simp
      with d(3) w_ne e show ?thesis by auto
    next
      assume "\<exists>c. lead = [c] \<and> \<not> path_char c"
      then obtain c where c: "lead = [c]" "\<not> path_char c" by blast
      with d(1) have h: "hd (lead' @ w' @ ''.'' @ member @ rest') = c" by (metis append_Cons list.sel(1))
      from d(3) show ?thesis
      proof
        assume "lead' = [] \<and> i = 0"
        with h w'_ne have "hd w' = c" by (cases w') auto
        with w'_ne c show ?thesis by simp
      next
        assume "\<exists>c. lead' = [c] \<and> \<not> path_char c"
        with h c show ?thesis by auto
      qed
    qed
  qed
  with d(1) have "(w @ ''.'' @ member) @ rest = (w' @ ''.'' @ member) @ rest'" by simp
  from path_run_unique [OF this occurrence_path [OF member base]
      occurrence_path [OF member d(2)] rest d(4)]
  have req: "rest' = rest" by simp
  have sh: "shorter (i, ?s) b" using d(5) req by (simp add: shorter_def)
  have ex: "concat (map (expand (snd b)) ?rep) = lead @ qual_name @ take 1 rest"
    using d(7,8) leq req by (simp add: expand_qual)
  obtain j where j: "fst b = (j, drop 1 rest)" "0 < j"
    using d(5,6) req by (cases "fst b") auto
  have "substitute_from (generic_regex member) ?rep (i, ?s) flag =
      concat (map (expand (snd b)) ?rep) @ substitute_from (generic_regex member) ?rep (fst b) True"
    by (subst substitute_from.simps) (simp only: b(1) option.case sh if_True)
  with ex j show ?thesis by auto
qed

lemma flag_irrelevant:
  assumes member: "list_all ident_char member"
  shows "substitute_from (generic_regex member) replacement p flag =
         substitute_from (generic_regex member) replacement p False"
proof (cases "best (matches (generic_regex member) 0 p)")
  case None
  then show ?thesis
    by (subst substitute_from.simps, subst (2) substitute_from.simps) simp
next
  case (Some b)
  obtain i s where p: "p = (i, s)" by (cases p)
  from best_in [OF Some] p have "b \<in> set (matches (generic_regex member) 0 (i, s))" by simp
  from generic_match_analysis [OF member this] have "shorter p b"
    by (auto simp: shorter_def p)
  with Some show ?thesis
    by (subst substitute_from.simps, subst (2) substitute_from.simps) simp
qed

lemma occurrence_Nil [simp]: "\<not> occurrence member []"
  by (simp add: occurrence_iff)

lemma copy_seps:
  assumes member: "list_all ident_char member"
  shows "list_all (\<lambda>c. \<not> path_char c) u \<Longrightarrow> rest = [] \<or> \<not> path_char (hd rest) \<Longrightarrow>
    substitute_from (generic_regex member) replacement (i, u @ rest) flag =
      u @ substitute_from (generic_regex member) replacement (i + length u, rest) False"
proof (induction u arbitrary: i flag)
  case Nil
  show ?case using flag_irrelevant [OF member] by simp
next
  case (Cons d u)
  from Cons.prems have d: "\<not> path_char d" by simp
  from Cons.prems have "takeWhile path_char (u @ rest) = []"
    by (cases u; cases rest) auto
  then have "\<not> occurrence member (takeWhile path_char (u @ rest))" by simp
  from no_match_boundary [OF member d this]
  have "matches (generic_regex member) 0 (i, d # u @ rest) = []" .
  from substitute_miss [OF this]
  have "substitute_from (generic_regex member) replacement (i, (d # u) @ rest) flag =
      d # substitute_from (generic_regex member) replacement (Suc i, u @ rest) False" by simp
  also have "substitute_from (generic_regex member) replacement (Suc i, u @ rest) False =
      u @ substitute_from (generic_regex member) replacement (Suc i + length u, rest) False"
    using Cons.prems by (intro Cons.IH) simp_all
  finally show ?case by simp
qed

lemma copy_run:
  assumes member: "list_all ident_char member"
  shows "list_all path_char r \<Longrightarrow> 0 < i \<Longrightarrow>
    substitute_from (generic_regex member) replacement (i, r @ rest) flag =
      r @ substitute_from (generic_regex member) replacement (i + length r, rest) False"
proof (induction r arbitrary: i flag)
  case Nil
  show ?case using flag_irrelevant [OF member] by simp
next
  case (Cons c r)
  from Cons.prems have c: "path_char c" by simp
  from no_match_inside [OF member c Cons.prems(2)]
  have "matches (generic_regex member) 0 (i, c # r @ rest) = []" .
  from substitute_miss [OF this]
  have "substitute_from (generic_regex member) replacement (i, (c # r) @ rest) flag =
      c # substitute_from (generic_regex member) replacement (Suc i, r @ rest) False" by simp
  also have "substitute_from (generic_regex member) replacement (Suc i, r @ rest) False =
      r @ substitute_from (generic_regex member) replacement (Suc i + length r, rest) False"
    using Cons.prems by (intro Cons.IH) simp_all
  finally show ?case by simp
qed

lemma copy_run_start:
  assumes member: "list_all ident_char member" and r: "list_all path_char r"
    and rest: "rest = [] \<or> \<not> path_char (hd rest)" and no: "\<not> occurrence member r"
  shows "substitute_from (generic_regex member) replacement (i, r @ rest) flag =
      r @ substitute_from (generic_regex member) replacement (i + length r, rest) False"
proof (cases r)
  case Nil
  then show ?thesis using flag_irrelevant [OF member] by simp
next
  case (Cons c cs)
  with r have c: "path_char c" "list_all path_char cs" by simp_all
  from takeWhile_run [OF r rest] Cons no
  have "\<not> occurrence member (takeWhile path_char (c # cs @ rest))" by simp
  from no_match_start [OF member c(1) this]
  have "matches (generic_regex member) 0 (i, c # cs @ rest) = []" .
  from substitute_miss [OF this]
  have "substitute_from (generic_regex member) replacement (i, (c # cs) @ rest) flag =
      c # substitute_from (generic_regex member) replacement (Suc i, cs @ rest) False" by simp
  also have "substitute_from (generic_regex member) replacement (Suc i, cs @ rest) False =
      cs @ substitute_from (generic_regex member) replacement (Suc i + length cs, rest) False"
    by (rule copy_run [OF member c(2)]) simp
  finally show ?thesis using Cons by simp
qed

text \<open>One piece of a line: its run is rewritten, or the piece is copied.\<close>

lemma piece_hit:
  assumes member: "list_all ident_char member" and occ: "occurrence member r"
    and sep: "list_all (\<lambda>c. \<not> path_char c) sep" and start: "sep \<noteq> [] \<or> i = 0"
    and rest: "rest = [] \<or> \<not> path_char (hd rest)"
  shows "\<exists>j. 0 < j \<and>
     substitute_from (generic_regex member) ([RRef 1] @ map RLit qual_name @ [RRef 3])
       (i, sep @ r @ rest) flag =
     sep @ qual_name @ take 1 rest
       @ substitute_from (generic_regex member) ([RRef 1] @ map RLit qual_name @ [RRef 3])
           (j, drop 1 rest) True"
proof -
  let ?rep = "[RRef 1] @ map RLit qual_name @ [RRef 3]"
  from occ obtain w where w: "r = w @ ''.'' @ member" "base_accepted w"
    by (auto simp: occurrence_iff)
  show ?thesis
  proof (cases sep rule: rev_cases)
    case Nil
    with start have "([] = [] \<and> i = 0) \<or> (\<exists>c. [] = [c] \<and> \<not> path_char c)" by simp
    from substitute_hit [OF member w(2) this rest, of qual_name flag] Nil w(1)
    show ?thesis by simp
  next
    case (snoc u c)
    with sep have u: "list_all (\<lambda>c. \<not> path_char c) u" and c: "\<not> path_char c" by simp_all
    have "([c] = [] \<and> i + length u = 0) \<or> (\<exists>d. [c] = [d] \<and> \<not> path_char d)"
      using c by simp
    from substitute_hit [OF member w(2) this rest, of qual_name False]
    obtain j where j: "0 < j"
      "substitute_from (generic_regex member) ?rep (i + length u, [c] @ r @ rest) False =
         [c] @ qual_name @ take 1 rest @ substitute_from (generic_regex member) ?rep (j, drop 1 rest) True"
      using w(1) by auto
    have "substitute_from (generic_regex member) ?rep (i, u @ ([c] @ r @ rest)) flag =
        u @ substitute_from (generic_regex member) ?rep (i + length u, [c] @ r @ rest) False"
      using c by (intro copy_seps [OF member u]) simp
    with j snoc show ?thesis by auto
  qed
qed

lemma piece_miss:
  assumes member: "list_all ident_char member" and r: "list_all path_char r"
    and sep: "list_all (\<lambda>c. \<not> path_char c) sep"
    and rest: "rest = [] \<or> \<not> path_char (hd rest)"
    and no: "\<not> occurrence member r \<or> (sep = [] \<and> 0 < i)"
  shows "substitute_from (generic_regex member) replacement (i, sep @ r @ rest) flag =
     sep @ r @ substitute_from (generic_regex member) replacement
       (i + length sep + length r, rest) False"
proof (cases sep rule: rev_cases)
  case Nil
  from no show ?thesis
  proof
    assume "\<not> occurrence member r"
    from copy_run_start [OF member r rest this] Nil show ?thesis by simp
  next
    assume "sep = [] \<and> 0 < i"
    with copy_run [OF member r] Nil show ?thesis by simp
  qed
next
  case (snoc u c)
  with sep have u: "list_all (\<lambda>c. \<not> path_char c) u" and c: "\<not> path_char c" by simp_all
  from no snoc have n: "\<not> occurrence member r" by simp
  have "substitute_from (generic_regex member) replacement (i, u @ (c # r @ rest)) flag =
      u @ substitute_from (generic_regex member) replacement (i + length u, c # r @ rest) False"
    using c by (intro copy_seps [OF member u]) simp
  also have "substitute_from (generic_regex member) replacement (i + length u, c # r @ rest) False =
      c # substitute_from (generic_regex member) replacement (Suc (i + length u), r @ rest) False"
  proof (rule substitute_miss)
    from takeWhile_run [OF r rest] n
    have "\<not> occurrence member (takeWhile path_char (r @ rest))" by simp
    from no_match_boundary [OF member c this]
    show "matches (generic_regex member) 0 (i + length u, c # r @ rest) = []" .
  qed
  also have "substitute_from (generic_regex member) replacement (Suc (i + length u), r @ rest) False =
      r @ substitute_from (generic_regex member) replacement (Suc (i + length u) + length r, rest) False"
    by (rule copy_run [OF member r]) simp
  finally show ?thesis using snoc by simp
qed

text \<open>The pieces of a line.\<close>

lemma unsplit_Cons [simp]: "unsplit ((sep, run) # ps) = sep @ run @ unsplit ps"
  by (simp add: unsplit_def)

lemma unsplit_Nil [simp]: "unsplit [] = []"
  by (simp add: unsplit_def)

lemma unsplit_split: "unsplit (split_runs s) = s"
proof (induction s rule: split_runs.induct)
  case (1 s)
  show ?case
  proof (cases "s = []")
    case True
    then show ?thesis by (subst split_runs.simps) simp
  next
    case False
    from 1 [OF False] False show ?thesis
      by (subst split_runs.simps) simp
  qed
qed

lemma split_chars:
  "\<forall>p\<in>set (split_runs s). list_all (\<lambda>c. \<not> path_char c) (fst p) \<and> list_all path_char (snd p)"
proof (induction s rule: split_runs.induct)
  case (1 s)
  show ?case
  proof (cases "s = []")
    case True
    then show ?thesis by (subst split_runs.simps) simp
  next
    case False
    have a: "list_all (\<lambda>c. \<not> path_char c) (takeWhile (\<lambda>c. \<not> path_char c) s)"
      by (auto simp: list_all_iff dest: set_takeWhileD)
    have b: "list_all path_char (takeWhile path_char (dropWhile (\<lambda>c. \<not> path_char c) s))"
      by (auto simp: list_all_iff dest: set_takeWhileD)
    from 1 [OF False] False a b show ?thesis
      by (subst split_runs.simps) simp
  qed
qed

lemma split_seps:
  "s = [] \<or> \<not> path_char (hd s) \<Longrightarrow> \<forall>p\<in>set (split_runs s). fst p \<noteq> []"
proof (induction s rule: split_runs.induct)
  case (1 s)
  show ?case
  proof (cases "s = []")
    case True
    then show ?thesis by (subst split_runs.simps) simp
  next
    case False
    let ?t = "dropWhile path_char (dropWhile (\<lambda>c. \<not> path_char c) s)"
    from False "1.prems" have a: "takeWhile (\<lambda>c. \<not> path_char c) s \<noteq> []"
      by (cases s) auto
    have "?t = [] \<or> \<not> path_char (hd ?t)"
      using hd_dropWhile [of path_char "dropWhile (\<lambda>c. \<not> path_char c) s"] by blast
    from "1.IH" [OF False this] a False show ?thesis
      by (subst split_runs.simps) simp
  qed
qed

lemma split_tl_seps: "\<forall>p\<in>set (tl (split_runs s)). fst p \<noteq> []"
proof (cases "s = []")
  case True
  then show ?thesis by (subst split_runs.simps) simp
next
  case False
  let ?t = "dropWhile path_char (dropWhile (\<lambda>c. \<not> path_char c) s)"
  have "?t = [] \<or> \<not> path_char (hd ?t)"
    using hd_dropWhile [of path_char "dropWhile (\<lambda>c. \<not> path_char c) s"] by blast
  from split_seps [OF this] False show ?thesis
    by (subst split_runs.simps) simp
qed

lemma unsplit_head:
  "\<forall>p\<in>set ps. list_all (\<lambda>c. \<not> path_char c) (fst p) \<Longrightarrow> \<forall>p\<in>set ps. fst p \<noteq> [] \<Longrightarrow>
   unsplit ps = [] \<or> \<not> path_char (hd (unsplit ps))"
proof (cases ps)
  case Nil
  then show ?thesis by simp
next
  case (Cons p ps')
  assume "\<forall>p\<in>set ps. list_all (\<lambda>c. \<not> path_char c) (fst p)" "\<forall>p\<in>set ps. fst p \<noteq> []"
  with Cons show ?thesis by (cases p; cases "fst p") auto
qed

lemma rewrite_take_1:
  "\<forall>p\<in>set ps. fst p \<noteq> [] \<Longrightarrow>
   take 1 (unsplit (rewrite_runs member qual_name consumed ps)) = take 1 (unsplit ps)"
proof (cases ps)
  case Nil
  then show ?thesis by simp
next
  case (Cons p ps')
  assume "\<forall>p\<in>set ps. fst p \<noteq> []"
  with Cons show ?thesis by (cases p; cases "fst p") (auto simp: Let_def)
qed

text \<open>The substitute command of the generic rule on the pieces of a line.\<close>

lemma rewrite_pieces:
  assumes member: "list_all ident_char member"
  shows "\<forall>p\<in>set ps. list_all (\<lambda>c. \<not> path_char c) (fst p) \<and> list_all path_char (snd p) \<Longrightarrow>
     \<forall>p\<in>set (tl ps). fst p \<noteq> [] \<Longrightarrow>
     (ps \<noteq> [] \<and> fst (hd ps) = [] \<longrightarrow> i = 0 \<and> \<not> consumed) \<Longrightarrow>
     (consumed \<longrightarrow> 0 < i) \<Longrightarrow>
     substitute_from (generic_regex member) ([RRef 1] @ map RLit qual_name @ [RRef 3])
       (i, drop (if consumed then 1 else 0) (unsplit ps)) flag =
     drop (if consumed then 1 else 0) (unsplit (rewrite_runs member qual_name consumed ps))"
proof (induction ps arbitrary: i consumed flag)
  case Nil
  show ?case using substitute_end [OF member] by simp
next
  case (Cons p ps)
  let ?rep = "[RRef 1] @ map RLit qual_name @ [RRef 3]"
  obtain sep r where p: "p = (sep, r)" by (cases p)
  let ?k = "if consumed then 1 else 0 :: nat"
  let ?sep = "drop ?k sep"
  let ?hit = "occurrence member r \<and> \<not> (consumed \<and> length sep = 1)"
  let ?after = "unsplit ps"
  from Cons.prems(1) p have sep: "list_all (\<lambda>c. \<not> path_char c) sep" and r: "list_all path_char r"
    and chars: "\<forall>p\<in>set ps. list_all (\<lambda>c. \<not> path_char c) (fst p) \<and> list_all path_char (snd p)"
    by simp_all
  from Cons.prems(2) have seps: "\<forall>p\<in>set ps. fst p \<noteq> []" by simp
  then have seps_tl: "\<forall>p\<in>set (tl ps). fst p \<noteq> []" by (cases ps) simp_all
  from seps have first: "ps = [] \<or> fst (hd ps) \<noteq> []"
    by (cases ps) simp_all
  from Cons.prems(3) p have start: "sep = [] \<Longrightarrow> i = 0 \<and> \<not> consumed" by simp
  from sep have sep': "list_all (\<lambda>c. \<not> path_char c) ?sep"
    by (auto simp: list_all_iff dest: in_set_dropD)
  have k: "?k \<le> length sep" using start by (cases sep) auto
  from chars seps have rest: "?after = [] \<or> \<not> path_char (hd ?after)"
    by (intro unsplit_head) simp_all
  have lhs: "drop ?k (unsplit (p # ps)) = ?sep @ r @ ?after"
    using k p by simp
  have rhs: "drop ?k (unsplit (rewrite_runs member qual_name consumed (p # ps))) =
      ?sep @ (if ?hit then qual_name else r) @ unsplit (rewrite_runs member qual_name ?hit ps)"
    using k p by (simp add: Let_def)
  show ?case
  proof (cases ?hit)
    case True
    then have occ: "occurrence member r" by simp
    have "?sep \<noteq> [] \<or> i = 0"
    proof (cases consumed)
      case True
      with \<open>?hit\<close> start have "sep \<noteq> []" "length sep \<noteq> 1" by auto
      then have "drop 1 sep \<noteq> []" by (cases sep) auto
      with True show ?thesis by simp
    next
      case False
      with start show ?thesis by auto
    qed
    from piece_hit [OF member occ sep' this rest, of qual_name flag]
    obtain j where j: "0 < j"
      "substitute_from (generic_regex member) ?rep (i, ?sep @ r @ ?after) flag =
         ?sep @ qual_name @ take 1 ?after
           @ substitute_from (generic_regex member) ?rep (j, drop 1 ?after) True"
      by blast
    have "substitute_from (generic_regex member) ?rep (j, drop (if True then 1 else 0) ?after) True =
        drop (if True then 1 else 0) (unsplit (rewrite_runs member qual_name True ps))"
      using chars seps_tl first j(1) by (intro Cons.IH) auto
    then have ih: "substitute_from (generic_regex member) ?rep (j, drop 1 ?after) True =
        drop 1 (unsplit (rewrite_runs member qual_name True ps))" by simp
    have "take 1 ?after @ drop 1 (unsplit (rewrite_runs member qual_name True ps)) =
        unsplit (rewrite_runs member qual_name True ps)"
      using rewrite_take_1 [OF seps, of member qual_name True]
        append_take_drop_id [of 1 "unsplit (rewrite_runs member qual_name True ps)"]
      by simp
    with j(2) ih True show ?thesis
      by (simp add: lhs rhs)
  next
    case False
    have "\<not> occurrence member r \<or> (?sep = [] \<and> 0 < i)"
      using False Cons.prems(4) by auto
    from piece_miss [OF member r sep' rest this, of ?rep flag]
    have step: "substitute_from (generic_regex member) ?rep (i, ?sep @ r @ ?after) flag =
       ?sep @ r @ substitute_from (generic_regex member) ?rep
         (i + length ?sep + length r, ?after) False" .
    have "substitute_from (generic_regex member) ?rep
         (i + length ?sep + length r, drop (if False then 1 else 0) ?after) False =
        drop (if False then 1 else 0) (unsplit (rewrite_runs member qual_name False ps))"
      using chars seps_tl first by (intro Cons.IH) auto
    then have ih: "substitute_from (generic_regex member) ?rep
         (i + length ?sep + length r, ?after) False =
        unsplit (rewrite_runs member qual_name False ps)" by simp
    from False have miss: "?hit = False" by simp
    from step ih show ?thesis
      unfolding lhs rhs miss by simp
  qed
qed

text \<open>The generic rule on any line.\<close>

lemma sed_generic_pieces:
  assumes member: "list_all ident_char member"
  shows "sed (generic_command member qual_name) line =
         unsplit (rewrite_runs member qual_name False (split_runs line))"
proof -
  have "substitute_from (generic_regex member) ([RRef 1] @ map RLit qual_name @ [RRef 3])
       (0, drop (if False then 1 else 0) (unsplit (split_runs line))) False =
     drop (if False then 1 else 0) (unsplit (rewrite_runs member qual_name False (split_runs line)))"
    using split_chars [of line] split_tl_seps [of line]
    by (intro rewrite_pieces [OF member]) simp_all
  then show ?thesis by (simp add: unsplit_split generic_command_def)
qed

text \<open>Consequences for whole lines.\<close>

lemma rewrite_runs_same:
  "\<forall>p\<in>set ps. snd p = qual_name \<or> \<not> occurrence member (snd p) \<Longrightarrow>
   rewrite_runs member qual_name consumed ps = ps"
  by (induction ps arbitrary: consumed) (auto simp: Let_def)

lemma rewrite_runs_none_skipped:
  "none_skipped member consumed ps \<Longrightarrow>
   rewrite_runs member qual_name consumed ps =
     map (\<lambda>p. (fst p, if occurrence member (snd p) then qual_name else snd p)) ps"
  by (induction ps arbitrary: consumed) (auto simp: Let_def)

lemma occurrence_not_Q: "occurrence member run \<Longrightarrow> run \<noteq> [] \<and> hd run \<noteq> CHR ''Q''"
proof -
  assume "occurrence member run"
  then obtain w where w: "run = w @ ''.'' @ member" "base_accepted w"
    by (auto simp: occurrence_iff)
  from base_accepted_first [OF w(2)] Q_not_first have "w \<noteq> []" "hd w \<noteq> CHR ''Q''"
    by auto
  with w(1) show ?thesis by simp
qed

lemma sed_generic_rewritten:
  assumes member: "list_all ident_char member"
    and chars: "\<forall>p\<in>set ps. list_all (\<lambda>c. \<not> path_char c) (fst p) \<and> list_all path_char (snd p)"
    and seps: "\<forall>p\<in>set (tl ps). fst p \<noteq> []"
  shows "sed (generic_command member qual_name) (unsplit ps) =
         unsplit (rewrite_runs member qual_name False ps)"
proof -
  have "substitute_from (generic_regex member) ([RRef 1] @ map RLit qual_name @ [RRef 3])
       (0, drop (if False then 1 else 0) (unsplit ps)) False =
     drop (if False then 1 else 0) (unsplit (rewrite_runs member qual_name False ps))"
    using chars seps by (intro rewrite_pieces [OF member]) simp_all
  then show ?thesis by (simp add: generic_command_def)
qed

lemma sed_generic_unchanged:
  assumes member: "list_all ident_char member"
    and no: "\<forall>p\<in>set (split_runs line). \<not> occurrence member (snd p)"
  shows "sed (generic_command member qual_name) line = line"
proof -
  from no have "rewrite_runs member qual_name False (split_runs line) = split_runs line"
    by (intro rewrite_runs_same) simp
  with sed_generic_pieces [OF member, of qual_name line] show ?thesis
    by (simp add: unsplit_split)
qed

lemma sed_generic_fixed_point:
  assumes member: "list_all ident_char member" and qual: "list_all path_char qual_name"
    and no: "none_skipped member False (split_runs line)"
  shows "sed (generic_command member qual_name) (sed (generic_command member qual_name) line) =
         sed (generic_command member qual_name) line"
proof -
  let ?ps = "map (\<lambda>p. (fst p, if occurrence member (snd p) then qual_name else snd p))
               (split_runs line)"
  have out: "sed (generic_command member qual_name) line = unsplit ?ps"
    using sed_generic_pieces [OF member, of qual_name line]
      rewrite_runs_none_skipped [OF no, of qual_name] by simp
  have chars: "\<forall>p\<in>set ?ps. list_all (\<lambda>c. \<not> path_char c) (fst p) \<and> list_all path_char (snd p)"
    using split_chars [of line] qual by auto
  have "tl ?ps = map (\<lambda>p. (fst p, if occurrence member (snd p) then qual_name else snd p))
               (tl (split_runs line))"
    by (simp add: map_tl)
  then have seps: "\<forall>p\<in>set (tl ?ps). fst p \<noteq> []"
    using split_tl_seps [of line] by auto
  have same: "\<forall>p\<in>set ?ps. snd p = qual_name \<or> \<not> occurrence member (snd p)"
    by auto
  from sed_generic_rewritten [OF member chars seps, of qual_name]
    rewrite_runs_same [OF same, of False]
  have "sed (generic_command member qual_name) (unsplit ?ps) = unsplit ?ps" by simp
  with out show ?thesis by simp
qed

text \<open>The end-to-end example.\<close>

lemma example_member_ident: "list_all ident_char example_member"
  by (simp add: example_member_def ident_char_def)

lemma example_qual_path: "list_all path_char example_qual_name"
  by (simp add: example_qual_name_def path_char_def ident_char_def)

lemma example_parse:
  "parse_module (example_module no_bindings) [] =
     Inr ([(example_member, example_qual_name)], [''QtWidgets''])"
  "parse_module (example_module enum_imported) [] =
     Inr ([(example_member, example_qual_name)], [''QtWidgets''])"
  by code_simp+

lemma example_class_unchanged:
  "sed (generic_command example_member example_qual_name) ''QAbstractItemView.MultiSelection'' =
     ''QAbstractItemView.MultiSelection''"
proof (rule sed_generic_unchanged [OF example_member_ident], rule ballI)
  fix p
  assume "p \<in> set (split_runs ''QAbstractItemView.MultiSelection'')"
  moreover have "split_runs ''QAbstractItemView.MultiSelection'' =
      [([], ''QAbstractItemView.MultiSelection'')]"
    by code_simp
  ultimately have "hd (snd p) = CHR ''Q''" by simp
  then show "\<not> occurrence example_member (snd p)"
    using occurrence_not_Q by blast
qed

text \<open>
  Claim C1, as amended. The stub file \<open>widgets.pyi\<close> of the example, read as the module
  \<open>QtWidgets\<close>, yields the pair of \<open>MultiSelection\<close> and
  \<open>QtWidgets.QAbstractItemView.SelectionMode.MultiSelection\<close>, whether or not the file
  imports \<open>enum\<close>. The first line compiled from the pair is its generic rule, which is
  the rendering of \<open>generic_command\<close>. That rule leaves a standalone
  \<open>QAbstractItemView.MultiSelection\<close> as it is. A line is the concatenation of its
  pieces, and the rule does to every line what \<open>rewrite_runs\<close> does to its pieces. So
  on a line in which no occurrence follows a rewritten one behind a single character,
  every standalone occurrence is rewritten to the qualified name and the rest of the
  line is kept. The standalone occurrences are the runs \<open>base.MultiSelection\<close> with a
  base that the base name of the pattern accepts.
\<close>

theorem C1_end_to_end:
  "parse_module (example_module no_bindings) [] =
     Inr ([(example_member, example_qual_name)], [''QtWidgets'']) \<and>
   parse_module (example_module enum_imported) [] =
     Inr ([(example_member, example_qual_name)], [''QtWidgets'']) \<and>
   fst (to_sed_script [(example_member, example_qual_name)]) ! 0 =
     generic_rule example_member example_qual_name \<and>
   render_command (generic_command example_member example_qual_name) =
     generic_rule example_member example_qual_name \<and>
   sed (generic_command example_member example_qual_name) ''QAbstractItemView.MultiSelection'' =
     ''QAbstractItemView.MultiSelection'' \<and>
   (\<forall>line. unsplit (split_runs line) = line \<and>
      sed (generic_command example_member example_qual_name) line =
        unsplit (rewrite_runs example_member example_qual_name False (split_runs line))) \<and>
   (\<forall>line. none_skipped example_member False (split_runs line) \<longrightarrow>
      sed (generic_command example_member example_qual_name) line =
        unsplit (map (\<lambda>p. (fst p, if occurrence example_member (snd p)
                                   then example_qual_name else snd p))
                   (split_runs line))) \<and>
   (\<forall>run. occurrence example_member run \<longleftrightarrow>
      (\<exists>base. run = base @ ''.MultiSelection'' \<and> base_accepted base))"
proof -
  have s: "fst (to_sed_script [(example_member, example_qual_name)]) ! 0 =
     generic_rule example_member example_qual_name"
    by (simp add: script_of_sorted sorted_substitutions_def)
  have a: "\<forall>line. unsplit (split_runs line) = line \<and>
      sed (generic_command example_member example_qual_name) line =
        unsplit (rewrite_runs example_member example_qual_name False (split_runs line))"
    using sed_generic_pieces [OF example_member_ident] unsplit_split by blast
  have b: "\<forall>line. none_skipped example_member False (split_runs line) \<longrightarrow>
      sed (generic_command example_member example_qual_name) line =
        unsplit (map (\<lambda>p. (fst p, if occurrence example_member (snd p)
                                   then example_qual_name else snd p))
                   (split_runs line))"
    using sed_generic_pieces [OF example_member_ident, of example_qual_name]
      rewrite_runs_none_skipped [of example_member False _ example_qual_name]
    by simp
  have c: "\<forall>run. occurrence example_member run \<longleftrightarrow>
      (\<exists>base. run = base @ ''.MultiSelection'' \<and> base_accepted base)"
    by (simp add: occurrence_iff example_member_def)
  from example_parse s render_generic example_class_unchanged a b c show ?thesis by blast
qed

text \<open>
  Claim C1 as stated fails. The generic rule compiled for the pair does not rewrite the
  standalone text \<open>QAbstractItemView.MultiSelection\<close>, whose base begins with \<open>Q\<close>. Of
  two occurrences with one character between them it rewrites the first only, since the
  first match takes that character as its closing boundary. It does not rewrite an
  occurrence that an identifier character follows, nor one whose base has \<open>t\<close> or a
  capital letter for its second character.
\<close>

theorem C1_end_to_end_counterexample:
  "fst (to_sed_script [(example_member, example_qual_name)]) ! 0 =
     render_command (generic_command example_member example_qual_name) \<and>
   sed (generic_command example_member example_qual_name) ''QAbstractItemView.MultiSelection'' =
     ''QAbstractItemView.MultiSelection'' \<and>
   sed (generic_command example_member example_qual_name) ''QAbstractItemView.MultiSelection'' \<noteq>
     ''QtWidgets.QAbstractItemView.SelectionMode.MultiSelection'' \<and>
   sed (generic_command example_member example_qual_name)
     ''f(a.MultiSelection,b.MultiSelection)'' =
     ''f(QtWidgets.QAbstractItemView.SelectionMode.MultiSelection,b.MultiSelection)'' \<and>
   sed (generic_command example_member example_qual_name) ''view.MultiSelections'' =
     ''view.MultiSelections'' \<and>
   sed (generic_command example_member example_qual_name) ''Item.MultiSelection'' =
     ''Item.MultiSelection''"
proof -
  have "fst (to_sed_script [(example_member, example_qual_name)]) ! 0 =
     render_command (generic_command example_member example_qual_name)"
    by (simp add: script_of_sorted sorted_substitutions_def render_generic)
  moreover have "sed (generic_command example_member example_qual_name)
     ''f(a.MultiSelection,b.MultiSelection)'' =
     ''f(QtWidgets.QAbstractItemView.SelectionMode.MultiSelection,b.MultiSelection)''"
    by code_simp
  moreover have "sed (generic_command example_member example_qual_name) ''view.MultiSelections'' =
     ''view.MultiSelections''"
    by code_simp
  moreover have "sed (generic_command example_member example_qual_name) ''Item.MultiSelection'' =
     ''Item.MultiSelection''"
    by code_simp
  ultimately show ?thesis by (simp add: example_class_unchanged)
qed

theorem C1_end_to_end_witness:
  "none_skipped example_member False
     (split_runs ''f(view.MultiSelection, self.view.MultiSelection)'') \<and>
   sed (generic_command example_member example_qual_name)
     ''f(view.MultiSelection, self.view.MultiSelection)'' =
     ''f(QtWidgets.QAbstractItemView.SelectionMode.MultiSelection, QtWidgets.QAbstractItemView.SelectionMode.MultiSelection)''"
proof -
  have h: "none_skipped example_member False
     (split_runs ''f(view.MultiSelection, self.view.MultiSelection)'')"
    by code_simp
  have e: "unsplit (map (\<lambda>p. (fst p, if occurrence example_member (snd p)
                                   then example_qual_name else snd p))
             (split_runs ''f(view.MultiSelection, self.view.MultiSelection)'')) =
     ''f(QtWidgets.QAbstractItemView.SelectionMode.MultiSelection, QtWidgets.QAbstractItemView.SelectionMode.MultiSelection)''"
    by code_simp
  from C1_end_to_end have "\<forall>line. none_skipped example_member False (split_runs line) \<longrightarrow>
      sed (generic_command example_member example_qual_name) line =
        unsplit (map (\<lambda>p. (fst p, if occurrence example_member (snd p)
                                   then example_qual_name else snd p))
                   (split_runs line))"
    by blast
  from this [rule_format, OF h] h e show ?thesis by simp
qed

text \<open>
  Claim C10, as amended. For a member of identifier characters, the generic rule is the
  rendering of \<open>generic_command\<close>, and the base name of its pattern matches no text
  that begins with \<open>Q\<close>. The runs that the rule rewrites are the runs \<open>base.member\<close>
  with a base that the base name accepts. So the rule leaves unchanged every line in
  which each run that ends with \<open>.member\<close> begins with \<open>Q\<close>. And when the qualified
  name is of identifier characters and dots, the output of the rule is a fixed point of
  the rule, on every line in which no occurrence follows a rewritten one behind a single
  character.
\<close>

theorem C10_base_excludes_Q:
  assumes "list_all ident_char member"
  shows "render_command (generic_command member qual_name) = generic_rule member qual_name \<and>
    (\<forall>g i s. matches base_name g (i, CHR ''Q'' # s) = []) \<and>
    (\<forall>run. occurrence member run \<longleftrightarrow> (\<exists>base. run = base @ ''.'' @ member \<and> base_accepted base)) \<and>
    (\<forall>line. (\<forall>p\<in>set (split_runs line). ends_with (snd p) (''.'' @ member) \<longrightarrow>
                hd (snd p) = CHR ''Q'') \<longrightarrow>
       sed (generic_command member qual_name) line = line) \<and>
    (list_all path_char qual_name \<longrightarrow>
       (\<forall>line. none_skipped member False (split_runs line) \<longrightarrow>
          sed (generic_command member qual_name) (sed (generic_command member qual_name) line) =
          sed (generic_command member qual_name) line))"
proof -
  have a: "\<forall>g i s. matches base_name g (i, CHR ''Q'' # s) = []"
    using base_name_not_Q by blast
  have o: "\<forall>run. occurrence member run \<longleftrightarrow>
      (\<exists>base. run = base @ ''.'' @ member \<and> base_accepted base)"
    using occurrence_iff by blast
  have b: "\<forall>line. (\<forall>p\<in>set (split_runs line). ends_with (snd p) (''.'' @ member) \<longrightarrow>
                hd (snd p) = CHR ''Q'') \<longrightarrow>
       sed (generic_command member qual_name) line = line"
  proof (intro allI impI)
    fix line
    assume q: "\<forall>p\<in>set (split_runs line). ends_with (snd p) (''.'' @ member) \<longrightarrow>
                hd (snd p) = CHR ''Q''"
    have "\<forall>p\<in>set (split_runs line). \<not> occurrence member (snd p)"
    proof
      fix p
      assume p: "p \<in> set (split_runs line)"
      show "\<not> occurrence member (snd p)"
      proof
        assume oc: "occurrence member (snd p)"
        then have "ends_with (snd p) (''.'' @ member)" by (simp add: occurrence_def)
        with q p have "hd (snd p) = CHR ''Q''" by blast
        with occurrence_not_Q [OF oc] show False by simp
      qed
    qed
    from sed_generic_unchanged [OF assms this]
    show "sed (generic_command member qual_name) line = line" .
  qed
  have c: "list_all path_char qual_name \<longrightarrow>
       (\<forall>line. none_skipped member False (split_runs line) \<longrightarrow>
          sed (generic_command member qual_name) (sed (generic_command member qual_name) line) =
          sed (generic_command member qual_name) line)"
    using sed_generic_fixed_point [OF assms] by blast
  from render_generic a o b c show ?thesis by blast
qed

text \<open>
  Claim C10 as stated fails: the output of a rule is not always a fixed point of the rule.
  Of two occurrences with one space between them the first match takes the space, so the
  second occurrence is rewritten only when the rule is applied again. And a qualified
  name with a character that is neither of an identifier nor a dot, which the extractor
  gives to the member of a module named \<open>my-mod\<close>, can hold an occurrence of its own,
  which the rule rewrites when it is applied again.
\<close>

theorem C10_base_excludes_Q_counterexample:
  "sed (generic_command example_member example_qual_name)
     (sed (generic_command example_member example_qual_name) ''a.MultiSelection b.MultiSelection'') \<noteq>
   sed (generic_command example_member example_qual_name) ''a.MultiSelection b.MultiSelection'' \<and>
   results_of (parse_module
       (Module ''my-mod''
          [ClassStmt (ClassDef ''E'' [Attribute ''enum.Enum'' no_bindings]
             [AnnAssign (AssignNameTarget ''M'')])]) []) = [(''M'', ''my-mod.E.M'')] \<and>
   sed (generic_command ''M'' ''my-mod.E.M'') (sed (generic_command ''M'' ''my-mod.E.M'') ''a.M'') \<noteq>
   sed (generic_command ''M'' ''my-mod.E.M'') ''a.M''"
  by code_simp

theorem C10_base_excludes_Q_witness:
  "list_all ident_char example_member \<and> list_all path_char example_qual_name \<and>
   sed (generic_command example_member example_qual_name)
     ''x = QtWidgets.QAbstractItemView.SelectionMode.MultiSelection'' =
     ''x = QtWidgets.QAbstractItemView.SelectionMode.MultiSelection'' \<and>
   none_skipped example_member False (split_runs ''x = view.MultiSelection + a.MultiSelection'') \<and>
   sed (generic_command example_member example_qual_name)
     (sed (generic_command example_member example_qual_name)
        ''x = view.MultiSelection + a.MultiSelection'') =
   sed (generic_command example_member example_qual_name)
     ''x = view.MultiSelection + a.MultiSelection''"
proof -
  note t = C10_base_excludes_Q [OF example_member_ident, of example_qual_name]
  have h: "\<forall>p\<in>set (split_runs ''x = QtWidgets.QAbstractItemView.SelectionMode.MultiSelection'').
      ends_with (snd p) (''.'' @ example_member) \<longrightarrow> hd (snd p) = CHR ''Q''"
    by code_simp
  have n: "none_skipped example_member False
      (split_runs ''x = view.MultiSelection + a.MultiSelection'')"
    by code_simp
  from t have "\<forall>line. (\<forall>p\<in>set (split_runs line).
        ends_with (snd p) (''.'' @ example_member) \<longrightarrow> hd (snd p) = CHR ''Q'') \<longrightarrow>
       sed (generic_command example_member example_qual_name) line = line" by blast
  from this [THEN spec, THEN mp, OF h]
  have u: "sed (generic_command example_member example_qual_name)
     ''x = QtWidgets.QAbstractItemView.SelectionMode.MultiSelection'' =
     ''x = QtWidgets.QAbstractItemView.SelectionMode.MultiSelection''" .
  from t example_qual_path
  have "\<forall>line. none_skipped example_member False (split_runs line) \<longrightarrow>
       sed (generic_command example_member example_qual_name)
         (sed (generic_command example_member example_qual_name) line) =
       sed (generic_command example_member example_qual_name) line" by blast
  from this [rule_format, OF n] u n example_member_ident example_qual_path
  show ?thesis by simp
qed

end
